theory Spec2Isabelle
  imports Main "HOL-Library.Word"
begin

section \<open>The per-thread pixel-buffer cache of libvips (iofuncs/buffer.c)\<close>

text \<open>
  The model is sequential and covers one worker thread: every structure of buffer.c
  (the thread's \<^verbatim>\<open>VipsBufferCache\<close>, its hash of buffer lists, its reserve list) is
  touched by its owning thread only. C pointers are natural numbers; the \<^verbatim>\<open>VipsBuffer\<close>
  structs that are allocated and not yet freed are the domain of the store \<open>heap\<close>.
  A \<^verbatim>\<open>g_assert\<close> that fails and a dereference of a pointer that is not valid end the
  run with an \<open>error\<close>; a \<^verbatim>\<open>NULL\<close> result (out of memory) is the value \<open>None\<close>.

  A C \<^verbatim>\<open>int\<close> (rectangle coordinates, \<^verbatim>\<open>ref_count\<close>, \<^verbatim>\<open>n_reserve\<close>, the result of
  \<^verbatim>\<open>buffer_move\<close>) is a 32-bit word: \<open>+\<close> and \<open>-\<close> wrap around in two's complement, as
  the compiled code does where C leaves signed overflow undefined, and a comparison reads
  both sides with \<open>sint\<close>. \<^verbatim>\<open>size_t\<close> is a 64-bit word, whose arithmetic wraps as in C.
\<close>

subsection \<open>Data\<close>

type_synonym image = nat
type_synonym bufptr = nat
type_synonym block = nat
type_synonym size_t = "64 word"
type_synonym c_int = "32 word"

record VipsRect =
  left :: c_int
  top_r :: c_int
  width :: c_int
  height :: c_int

text \<open>
  \<^verbatim>\<open>VipsBuffer\<close>. \<open>im\<close> is \<open>None\<close> for \<^verbatim>\<open>NULL\<close>; \<open>done_b\<close> is the field
  \<^verbatim>\<open>done\<close>; \<open>cache\<close> tells whether the field \<^verbatim>\<open>cache\<close> points to the thread's
  cache (\<open>True\<close>) or is \<^verbatim>\<open>NULL\<close>; \<open>buf\<close> is the tracked memory block, \<open>None\<close> for
  \<^verbatim>\<open>NULL\<close>.
\<close>

record VipsBuffer =
  ref_count :: c_int
  im :: "image option"
  area :: VipsRect
  done_b :: bool
  cache :: bool
  buf :: "block option"
  bsize :: size_t

text \<open>
  The state of one thread: the live \<^verbatim>\<open>VipsBuffer\<close> structs, and the fields of the
  thread's \<^verbatim>\<open>VipsBufferCache\<close>. \<open>hash\<close> maps an image pointer (the key may be
  \<^verbatim>\<open>NULL\<close>, as \<^verbatim>\<open>g_direct_hash\<close> allows) to \<^verbatim>\<open>cache_list->buffers\<close>; a key
  without a \<^verbatim>\<open>VipsBufferCacheList\<close> maps to \<open>None\<close>. \<open>next_buffer\<close> and \<open>next_block\<close>
  are the addresses the next \<^verbatim>\<open>g_new0\<close> and the next successful
  \<^verbatim>\<open>vips_tracked_malloc\<close> return, so they count the allocations made so far.
\<close>

record state =
  heap :: "bufptr \<rightharpoonup> VipsBuffer"
  hash :: "image option \<rightharpoonup> bufptr list"
  reserve :: "bufptr list"
  n_reserve :: c_int
  next_buffer :: nat
  next_block :: nat

datatype error = AssertionFailed | InvalidPointer

text \<open>
  Collaborators that are not part of buffer.c: the macro \<^verbatim>\<open>VIPS_IMAGE_SIZEOF_PEL\<close> and
  the geometry test \<^verbatim>\<open>vips_rect_includesrect\<close>. Both are parameters of the model.
\<close>

record collaborators =
  sizeof_pel :: "image \<Rightarrow> size_t"
  vips_rect_includesrect :: "VipsRect \<Rightarrow> VipsRect \<Rightarrow> bool"

definition buffer_cache_max_reserve :: c_int where
  "buffer_cache_max_reserve = 40"

text \<open>
  \<^verbatim>\<open>buffer_cache_new\<close>: the cache \<^verbatim>\<open>buffer_cache_get\<close> creates on the thread's first
  call, with an empty hash and an empty reserve. A thread starts in this state.
\<close>

definition buffer_cache_new :: state where
  "buffer_cache_new =
     \<lparr>heap = Map.empty, hash = Map.empty, reserve = [], n_reserve = 0,
      next_buffer = 0, next_block = 0\<rparr>"

subsection \<open>Operations\<close>

text \<open>A write through a buffer pointer: \<^verbatim>\<open>buffer->field = v\<close>.\<close>

definition modify :: "bufptr \<Rightarrow> (VipsBuffer \<Rightarrow> VipsBuffer) \<Rightarrow> state \<Rightarrow> state" where
  "modify b f s =
     (case heap s b of
        None \<Rightarrow> s
      | Some x \<Rightarrow> s\<lparr>heap := (heap s)(b \<mapsto> f x)\<rparr>)"

text \<open>\<^verbatim>\<open>buffer->area.width = 0; buffer->area.height = 0;\<close>\<close>

definition zero_area :: "VipsBuffer \<Rightarrow> VipsBuffer" where
  "zero_area x = x\<lparr>area := (area x)\<lparr>width := 0, height := 0\<rparr>\<rparr>"

text \<open>\<^verbatim>\<open>vips_buffer_free\<close>: the block and the struct are given back.\<close>

definition vips_buffer_free :: "bufptr \<Rightarrow> state \<Rightarrow> state" where
  "vips_buffer_free b s = s\<lparr>heap := (heap s)(b := None)\<rparr>"

text \<open>\<^verbatim>\<open>cache_list->buffers\<close> of a key, \<^verbatim>\<open>NULL\<close> (the empty list) when there is no list.\<close>

definition buffers_of :: "state \<Rightarrow> image option \<Rightarrow> bufptr list" where
  "buffers_of s k = (case hash s k of None \<Rightarrow> [] | Some l \<Rightarrow> l)"

text \<open>
  \<^verbatim>\<open>vips_buffer_done\<close>. \<^verbatim>\<open>g_slist_prepend\<close> is \<open>#\<close>; the list of the image is created
  when the hash has none.
\<close>

definition vips_buffer_done :: "bufptr \<Rightarrow> state \<Rightarrow> error + state" where
  "vips_buffer_done b s =
     (case heap s b of
        None \<Rightarrow> Inl InvalidPointer
      | Some buffer \<Rightarrow>
          if \<not> done_b buffer then
            if b \<in> set (buffers_of s (im buffer)) then Inl AssertionFailed
            else Inr (modify b (\<lambda>x. x\<lparr>done_b := True, cache := True\<rparr>)
                        (s\<lparr>hash := (hash s)(im buffer \<mapsto> b # buffers_of s (im buffer))\<rparr>))
          else Inr s)"

text \<open>
  \<^verbatim>\<open>vips_buffer_undone\<close>. \<^verbatim>\<open>g_slist_remove\<close> removes the first occurrence, as
  \<open>remove1\<close> does. A \<^verbatim>\<open>done\<close> buffer whose \<^verbatim>\<open>cache\<close> is \<^verbatim>\<open>NULL\<close> makes
  \<^verbatim>\<open>cache->thread\<close> a read through \<^verbatim>\<open>NULL\<close>.
\<close>

definition vips_buffer_undone :: "bufptr \<Rightarrow> state \<Rightarrow> error + state" where
  "vips_buffer_undone b s =
     (case heap s b of
        None \<Rightarrow> Inl InvalidPointer
      | Some buffer \<Rightarrow>
          if done_b buffer then
            if \<not> cache buffer then Inl InvalidPointer
            else
              (case hash s (im buffer) of
                 None \<Rightarrow> Inl AssertionFailed
               | Some l \<Rightarrow>
                   if b \<notin> set l then Inl AssertionFailed
                   else Inr (modify b (\<lambda>x. zero_area (x\<lparr>done_b := False, cache := False\<rparr>))
                               (s\<lparr>hash := (hash s)(im buffer \<mapsto> remove1 b l)\<rparr>)))
          else Inr (modify b zero_area s))"

text \<open>\<^verbatim>\<open>vips_buffer_unref\<close>.\<close>

definition vips_buffer_unref :: "bufptr \<Rightarrow> state \<Rightarrow> error + state" where
  "vips_buffer_unref b s =
     (case heap s b of
        None \<Rightarrow> Inl InvalidPointer
      | Some buffer \<Rightarrow>
          if \<not> sint (ref_count buffer) > 0 then Inl AssertionFailed
          else
            let s1 = modify b (\<lambda>x. x\<lparr>ref_count := ref_count x - 1\<rparr>) s in
            if ref_count buffer - 1 = 0 then
              (case vips_buffer_undone b s1 of
                 Inl e \<Rightarrow> Inl e
               | Inr s2 \<Rightarrow>
                   if sint (n_reserve s2) < sint buffer_cache_max_reserve then
                     Inr (modify b
                            (\<lambda>x. zero_area (x\<lparr>done_b := False, cache := False, im := None\<rparr>))
                            (s2\<lparr>reserve := b # reserve s2, n_reserve := n_reserve s2 + 1\<rparr>))
                   else Inr (vips_buffer_free b s2))
            else Inr s1)"

text \<open>
  \<^verbatim>\<open>buffer_move\<close>. The result is the C return value (0, or -1 when
  \<^verbatim>\<open>vips_tracked_malloc\<close> returns \<^verbatim>\<open>NULL\<close>) and the state. \<open>mem\<close> is the
  allocator's answer to the one \<^verbatim>\<open>vips_tracked_malloc\<close> call the function can make:
  \<open>True\<close> when it returns a block. \<^verbatim>\<open>(size_t) VIPS_IMAGE_SIZEOF_PEL( im ) * area->width *
  area->height\<close> converts both \<^verbatim>\<open>int\<close>s to \<^verbatim>\<open>size_t\<close> with their sign (\<open>scast\<close>) and
  multiplies modulo \<open>2 ^ 64\<close>.
\<close>

definition buffer_move ::
  "collaborators \<Rightarrow> bool \<Rightarrow> bufptr \<Rightarrow> VipsRect \<Rightarrow> state \<Rightarrow> error + (c_int \<times> state)" where
  "buffer_move E mem b a s =
     (case heap s b of
        None \<Rightarrow> Inl InvalidPointer
      | Some buffer \<Rightarrow>
          if ref_count buffer \<noteq> 1 then Inl AssertionFailed
          else
            (case vips_buffer_undone b s of
               Inl e \<Rightarrow> Inl e
             | Inr s1 \<Rightarrow>
                 let s2 = modify b (\<lambda>x. x\<lparr>area := a\<rparr>) s1 in
                 (case im buffer of
                    None \<Rightarrow> Inl InvalidPointer
                  | Some i \<Rightarrow>
                      let new_bsize =
                            sizeof_pel E i * scast (width a) * scast (height a) in
                      if bsize buffer < new_bsize \<or> buf buffer = None then
                        if mem then
                          Inr (0, modify b (\<lambda>x. x\<lparr>bsize := new_bsize,
                                                    buf := Some (next_block s2)\<rparr>)
                                    (s2\<lparr>next_block := Suc (next_block s2)\<rparr>))
                        else
                          Inr (- 1, modify b (\<lambda>x. x\<lparr>bsize := new_bsize, buf := None\<rparr>) s2)
                      else Inr (0, s2))))"

text \<open>
  \<^verbatim>\<open>vips_buffer_new\<close>: the head of the reserve when there is one, else a struct from
  \<^verbatim>\<open>g_new0\<close> (every field zero) at a fresh address.
\<close>

definition vips_buffer_new ::
  "collaborators \<Rightarrow> bool \<Rightarrow> image \<Rightarrow> VipsRect \<Rightarrow> state \<Rightarrow> error + (bufptr option \<times> state)" where
  "vips_buffer_new E mem i a s =
     (let (b, s1) =
        (case reserve s of
           r # rs \<Rightarrow>
             (r, modify r (\<lambda>x. x\<lparr>ref_count := 1, im := Some i, done_b := False, cache := False\<rparr>)
                   (s\<lparr>reserve := remove1 r (reserve s), n_reserve := n_reserve s - 1\<rparr>))
         | [] \<Rightarrow>
             (next_buffer s,
              s\<lparr>heap := (heap s)(next_buffer s \<mapsto>
                     \<lparr>ref_count = 1, im = Some i,
                      area = \<lparr>left = 0, top_r = 0, width = 0, height = 0\<rparr>,
                      done_b = False, cache = False, buf = None, bsize = 0\<rparr>),
                next_buffer := Suc (next_buffer s)\<rparr>))
      in case buffer_move E mem b a s1 of
           Inl e \<Rightarrow> Inl e
         | Inr (rc, s2) \<Rightarrow>
             if rc \<noteq> 0 then Inr (None, vips_buffer_free b s2)
             else Inr (Some b, s2))"

text \<open>
  The enclosure test \<^verbatim>\<open>buffer_find\<close> writes inline, as the machine computes it: the
  four sums are 32-bit sums.
\<close>

definition encloses :: "VipsRect \<Rightarrow> VipsRect \<Rightarrow> bool" where
  "encloses a r \<longleftrightarrow>
     sint (left a) \<le> sint (left r) \<and> sint (top_r a) \<le> sint (top_r r) \<and>
     sint (left a + width a) \<ge> sint (left r + width r) \<and>
     sint (top_r a + height a) \<ge> sint (top_r r + height r)"

text \<open>The \<^verbatim>\<open>for\<close> loop of \<^verbatim>\<open>buffer_find\<close> over \<^verbatim>\<open>cache_list->buffers\<close>.\<close>

fun find_loop :: "(bufptr \<rightharpoonup> VipsBuffer) \<Rightarrow> VipsRect \<Rightarrow> bufptr list \<Rightarrow> error + bufptr option" where
  "find_loop h r [] = Inr None"
| "find_loop h r (p # ps) =
     (case h p of
        None \<Rightarrow> Inl InvalidPointer
      | Some buffer \<Rightarrow>
          if encloses (area buffer) r then Inr (Some p) else find_loop h r ps)"

text \<open>\<^verbatim>\<open>buffer->ref_count += 1\<close>, on 32 bits.\<close>

definition add_ref :: "VipsBuffer \<Rightarrow> VipsBuffer" where
  "add_ref x = x\<lparr>ref_count := ref_count x + 1\<rparr>"

definition buffer_find :: "image \<Rightarrow> VipsRect \<Rightarrow> state \<Rightarrow> error + (bufptr option \<times> state)" where
  "buffer_find i r s =
     (case find_loop (heap s) r (buffers_of s (Some i)) of
        Inl e \<Rightarrow> Inl e
      | Inr None \<Rightarrow> Inr (None, s)
      | Inr (Some p) \<Rightarrow> Inr (Some p, modify p add_ref s))"

text \<open>\<^verbatim>\<open>vips_buffer_ref\<close>.\<close>

definition vips_buffer_ref ::
  "collaborators \<Rightarrow> bool \<Rightarrow> image \<Rightarrow> VipsRect \<Rightarrow> state \<Rightarrow> error + (bufptr option \<times> state)" where
  "vips_buffer_ref E mem i a s =
     (case buffer_find i a s of
        Inl e \<Rightarrow> Inl e
      | Inr (Some b, s1) \<Rightarrow> Inr (Some b, s1)
      | Inr (None, s1) \<Rightarrow> vips_buffer_new E mem i a s1)"

text \<open>\<^verbatim>\<open>vips_buffer_unref_ref\<close>.\<close>

definition vips_buffer_unref_ref ::
  "collaborators \<Rightarrow> bool \<Rightarrow> bufptr option \<Rightarrow> image \<Rightarrow> VipsRect \<Rightarrow> state
     \<Rightarrow> error + (bufptr option \<times> state)" where
  "vips_buffer_unref_ref E mem old i a s =
     (case old of
        None \<Rightarrow>
          (case buffer_find i a s of
             Inl e \<Rightarrow> Inl e
           | Inr (Some b, s1) \<Rightarrow> Inr (Some b, s1)
           | Inr (None, s1) \<Rightarrow> vips_buffer_new E mem i a s1)
      | Some ob \<Rightarrow>
          (case heap s ob of
             None \<Rightarrow> Inl InvalidPointer
           | Some old_buffer \<Rightarrow>
               if im old_buffer \<noteq> Some i then Inl AssertionFailed
               else if vips_rect_includesrect E (area old_buffer) a then Inr (Some ob, s)
               else
                 (case buffer_find i a s of
                    Inl e \<Rightarrow> Inl e
                  | Inr (Some b, s1) \<Rightarrow>
                      (case vips_buffer_unref ob s1 of
                         Inl e \<Rightarrow> Inl e
                       | Inr s2 \<Rightarrow> Inr (Some b, s2))
                  | Inr (None, s1) \<Rightarrow>
                      if ref_count old_buffer = 1 then
                        (case buffer_move E mem ob a s1 of
                           Inl e \<Rightarrow> Inl e
                         | Inr (rc, s2) \<Rightarrow>
                             if rc \<noteq> 0 then
                               (case vips_buffer_unref ob s2 of
                                  Inl e \<Rightarrow> Inl e
                                | Inr s3 \<Rightarrow> Inr (None, s3))
                             else Inr (Some ob, s2))
                      else
                        (case vips_buffer_unref ob s1 of
                           Inl e \<Rightarrow> Inl e
                         | Inr s2 \<Rightarrow> vips_buffer_new E mem i a s2))))"

subsection \<open>Calls of a client\<close>

text \<open>
  The five entry points the execution engine calls. The \<open>bool\<close> of \<open>Acquire\<close> and
  \<open>SwapReference\<close> is the allocator's answer, should the call reach
  \<^verbatim>\<open>vips_tracked_malloc\<close>.
\<close>

datatype call =
    Acquire image VipsRect bool
  | SwapReference "bufptr option" image VipsRect bool
  | Publish bufptr
  | Unpublish bufptr
  | Release bufptr

text \<open>
  The caller's side of the contract: a buffer pointer handed to the cache is one the
  caller holds a reference to, that is a live buffer whose count is positive. The C code
  cannot check that a pointer is still valid; passing a pointer to a buffer that was
  given back is a use after release.
\<close>

definition holds_ref :: "state \<Rightarrow> bufptr \<Rightarrow> bool" where
  "holds_ref s b = (case heap s b of None \<Rightarrow> False | Some x \<Rightarrow> 0 < sint (ref_count x))"

fun permitted :: "state \<Rightarrow> call \<Rightarrow> bool" where
  "permitted s (Acquire i a mem) = True"
| "permitted s (SwapReference old i a mem) =
     (case old of None \<Rightarrow> True | Some b \<Rightarrow> holds_ref s b)"
| "permitted s (Publish b) = holds_ref s b"
| "permitted s (Unpublish b) = holds_ref s b"
| "permitted s (Release b) = holds_ref s b"

fun exec :: "collaborators \<Rightarrow> call \<Rightarrow> state \<Rightarrow> error + state" where
  "exec E (Acquire i a mem) s =
     (case vips_buffer_ref E mem i a s of Inl e \<Rightarrow> Inl e | Inr (r, s') \<Rightarrow> Inr s')"
| "exec E (SwapReference old i a mem) s =
     (case vips_buffer_unref_ref E mem old i a s of Inl e \<Rightarrow> Inl e | Inr (r, s') \<Rightarrow> Inr s')"
| "exec E (Publish b) s = vips_buffer_done b s"
| "exec E (Unpublish b) s = vips_buffer_undone b s"
| "exec E (Release b) s = vips_buffer_unref b s"

text \<open>
  A run of calls from a state: \<open>Some\<close> of the final state when every call is permitted
  and returns, \<open>None\<close> when a call is not permitted or aborts.
\<close>

fun run :: "collaborators \<Rightarrow> call list \<Rightarrow> state \<Rightarrow> state option" where
  "run E [] s = Some s"
| "run E (c # cs) s =
     (if permitted s c then
        (case exec E c s of Inl e \<Rightarrow> None | Inr s' \<Rightarrow> run E cs s')
      else None)"

text \<open>
  The same run without the caller's side of the contract: any call, with any pointer;
  the run ends at the first call that aborts.
\<close>

fun exec_all :: "collaborators \<Rightarrow> call list \<Rightarrow> state \<Rightarrow> error + state" where
  "exec_all E [] s = Inr s"
| "exec_all E (c # cs) s = (case exec E c s of Inl e \<Rightarrow> Inl e | Inr s' \<Rightarrow> exec_all E cs s')"

text \<open>
  Every live buffer has a count, read as an unsigned number, of at most \<open>n\<close>: the count
  has not gone round more than \<open>n\<close> steps from 0.
\<close>

definition counts_le :: "nat \<Rightarrow> state \<Rightarrow> bool" where
  "counts_le n s \<longleftrightarrow> (\<forall>b x. heap s b = Some x \<longrightarrow> unat (ref_count x) \<le> n)"

text \<open>Whether a buffer is on some \<^verbatim>\<open>cache_list->buffers\<close> of the thread's hash.\<close>

definition listed :: "state \<Rightarrow> bufptr \<Rightarrow> bool" where
  "listed s b \<longleftrightarrow> (\<exists>k. b \<in> set (buffers_of s k))"

text \<open>
  The buffer \<^verbatim>\<open>vips_buffer_new\<close> sets up: the head of the reserve when there is one,
  else the struct \<^verbatim>\<open>g_new0\<close> returns.
\<close>

definition new_candidate :: "state \<Rightarrow> bufptr" where
  "new_candidate s = (case reserve s of r # rs \<Rightarrow> r | [] \<Rightarrow> next_buffer s)"

subsection \<open>Enclosure in exact arithmetic\<close>

text \<open>
  What the glossary of the specification means by a rectangle that encloses another:
  the same four comparisons on the fields read as integers, with exact sums. The
  rectangle \<open>r\<close> is then inside \<open>a\<close> pixel by pixel.
\<close>

definition exact_encloses :: "VipsRect \<Rightarrow> VipsRect \<Rightarrow> bool" where
  "exact_encloses a r \<longleftrightarrow>
     sint (left a) \<le> sint (left r) \<and> sint (top_r a) \<le> sint (top_r r) \<and>
     sint (left a) + sint (width a) \<ge> sint (left r) + sint (width r) \<and>
     sint (top_r a) + sint (height a) \<ge> sint (top_r r) + sint (height r)"

text \<open>The right and bottom edges of a rectangle are 32-bit integers: the sums do not wrap.\<close>

definition edges_fit :: "VipsRect \<Rightarrow> bool" where
  "edges_fit a \<longleftrightarrow>
     - 2147483648 \<le> sint (left a) + sint (width a) \<and>
     sint (left a) + sint (width a) < 2147483648 \<and>
     - 2147483648 \<le> sint (top_r a) + sint (height a) \<and>
     sint (top_r a) + sint (height a) < 2147483648"


subsection \<open>The invariants of the cache\<close>

definition buffer_ok :: "state \<Rightarrow> bufptr \<Rightarrow> VipsBuffer \<Rightarrow> bool" where
  "buffer_ok s b x \<longleftrightarrow> b < next_buffer s \<and> (done_b x \<longrightarrow> cache x)"

text \<open>
  The structure of the cache, whatever the counts are: the reserve and the lists are
  duplicate free, \<open>n_reserve\<close> is the length of the reserve and at most the maximum,
  every buffer of the reserve is live, detached and has count 0, and the list of a key
  holds exactly the live \<^verbatim>\<open>done\<close> buffers of that image.
\<close>

definition cache_wf :: "state \<Rightarrow> bool" where
  "cache_wf s \<longleftrightarrow>
     n_reserve s = of_nat (length (reserve s)) \<and> length (reserve s) \<le> 40 \<and>
     distinct (reserve s) \<and> (\<forall>k. distinct (buffers_of s k)) \<and>
     (\<forall>b \<in> set (reserve s). \<exists>x. heap s b = Some x \<and> ref_count x = 0 \<and> \<not> done_b x \<and>
        im x = None \<and> \<not> cache x \<and> width (area x) = 0 \<and> height (area x) = 0) \<and>
     (\<forall>b k. b \<in> set (buffers_of s k) \<longleftrightarrow>
        (\<exists>x. heap s b = Some x \<and> done_b x \<and> im x = k)) \<and>
     (\<forall>b x. heap s b = Some x \<longrightarrow> buffer_ok s b x)"

text \<open>
  The counts tell the truth: a \<^verbatim>\<open>done\<close> buffer has a count other than 0, and a live
  buffer of count 0 is in the reserve. This holds as long as no count has gone all the
  way round to 0, which takes \<open>2 ^ 32\<close> increments.
\<close>

definition counts_ok :: "state \<Rightarrow> bool" where
  "counts_ok s \<longleftrightarrow>
     (\<forall>b x. heap s b = Some x \<longrightarrow>
        (done_b x \<longrightarrow> ref_count x \<noteq> 0) \<and> (ref_count x = 0 \<longrightarrow> b \<in> set (reserve s)))"

subsection \<open>Values for the examples\<close>

text \<open>One byte per pixel, and the inline test of \<^verbatim>\<open>buffer_find\<close> as the geometry test.\<close>

definition E0 :: collaborators where
  "E0 = \<lparr>sizeof_pel = (\<lambda>_. 1), vips_rect_includesrect = encloses\<rparr>"

definition rect :: "c_int \<Rightarrow> c_int \<Rightarrow> c_int \<Rightarrow> c_int \<Rightarrow> VipsRect" where
  "rect l t w h = \<lparr>left = l, top_r = t, width = w, height = h\<rparr>"

text \<open>
  The state after two buffers of image 0 were acquired, for the rectangles
  \<open>(0, 0, 10, 10)\<close> and \<open>(0, 0, 20, 20)\<close>, and published in that order.
\<close>

definition buffer_10 :: VipsBuffer where
  "buffer_10 = \<lparr>ref_count = 1, im = Some 0, area = rect 0 0 10 10, done_b = True,
                 cache = True, buf = Some 0, bsize = 100\<rparr>"

definition buffer_20 :: VipsBuffer where
  "buffer_20 = \<lparr>ref_count = 1, im = Some 0, area = rect 0 0 20 20, done_b = True,
                 cache = True, buf = Some 1, bsize = 400\<rparr>"

definition two_published :: state where
  "two_published =
     \<lparr>heap = [0 \<mapsto> \<lparr>ref_count = 1, im = Some 0, area = rect 0 0 10 10, done_b = True,
                     cache = True, buf = Some 0, bsize = 100\<rparr>,
              1 \<mapsto> \<lparr>ref_count = 1, im = Some 0, area = rect 0 0 20 20, done_b = True,
                     cache = True, buf = Some 1, bsize = 400\<rparr>],
      hash = [Some 0 \<mapsto> [1, 0]], reserve = [], n_reserve = 0,
      next_buffer = 2, next_block = 2\<rparr>"

text \<open>
  Forty-one buffers of image 0 acquired for rectangles that do not meet, then the first
  forty released: the reserve is full and buffer 40 is still referenced.
\<close>

definition fill_calls :: "call list" where
  "fill_calls =
     map (\<lambda>k. Acquire 0 (rect (of_nat k * 100) 0 10 10) True) [0..<41] @ map Release [0..<40]"

text \<open>
  The state after one buffer of image 0 was acquired for \<open>(0, 0, 10, 10)\<close>, that buffer,
  and the state after \<^verbatim>\<open>vips_buffer_unref_ref\<close> was then asked to move it to
  \<open>(20, 20, 20, 20)\<close> and the allocator failed.
\<close>

definition buffer_first :: VipsBuffer where
  "buffer_first = \<lparr>ref_count = 1, im = Some 0, area = rect 0 0 10 10, done_b = False,
                    cache = False, buf = Some 0, bsize = 100\<rparr>"

definition one_acquired :: state where
  "one_acquired =
     \<lparr>heap = [0 \<mapsto> \<lparr>ref_count = 1, im = Some 0, area = rect 0 0 10 10, done_b = False,
                     cache = False, buf = Some 0, bsize = 100\<rparr>],
      hash = Map.empty, reserve = [], n_reserve = 0, next_buffer = 1, next_block = 1\<rparr>"

definition move_failed :: state where
  "move_failed =
     \<lparr>heap = [0 \<mapsto> \<lparr>ref_count = 0, im = None, area = rect 20 20 0 0, done_b = False,
                     cache = False, buf = None, bsize = 400\<rparr>],
      hash = Map.empty, reserve = [0], n_reserve = 1, next_buffer = 1, next_block = 1\<rparr>"

text \<open>
  The state after one buffer of image 0 was acquired for \<open>(0, 0, 10, 10)\<close> and published,
  with the count of that buffer at \<open>c\<close>.
\<close>

definition counted :: "c_int \<Rightarrow> state" where
  "counted c =
     \<lparr>heap = [0 \<mapsto> \<lparr>ref_count = c, im = Some 0, area = rect 0 0 10 10, done_b = True,
                     cache = True, buf = Some 0, bsize = 100\<rparr>],
      hash = [Some 0 \<mapsto> [0]], reserve = [], n_reserve = 0, next_buffer = 1, next_block = 1\<rparr>"

text \<open>
  A published buffer whose right edge is past the largest \<^verbatim>\<open>int\<close>, and the state after a
  second buffer was acquired for a rectangle inside it.
\<close>

definition far_buffer :: VipsBuffer where
  "far_buffer = \<lparr>ref_count = 1, im = Some 0, area = rect 2147483640 0 10 10, done_b = True,
                  cache = True, buf = Some 0, bsize = 100\<rparr>"

definition far_published :: state where
  "far_published =
     \<lparr>heap = [0 \<mapsto> far_buffer],
      hash = [Some 0 \<mapsto> [0]], reserve = [], n_reserve = 0, next_buffer = 1, next_block = 1\<rparr>"


text \<open>
  The state after a buffer was acquired, released and then published through the pointer
  the caller no longer owns.
\<close>

definition stale_buffer :: VipsBuffer where
  "stale_buffer = \<lparr>ref_count = 0, im = None, area = rect 0 0 0 0, done_b = True,
                    cache = True, buf = Some 0, bsize = 100\<rparr>"

definition stale_published :: state where
  "stale_published =
     \<lparr>heap = [0 \<mapsto> stale_buffer],
      hash = [None \<mapsto> [0]], reserve = [0], n_reserve = 1, next_buffer = 1, next_block = 1\<rparr>"

text \<open>The state after a buffer was acquired for \<open>(5, 5, 10, 10)\<close> and released.\<close>

definition parked_buffer :: VipsBuffer where
  "parked_buffer = \<lparr>ref_count = 0, im = None, area = rect 5 5 0 0, done_b = False,
                     cache = False, buf = Some 0, bsize = 100\<rparr>"

definition parked :: state where
  "parked =
     \<lparr>heap = [0 \<mapsto> parked_buffer],
      hash = Map.empty, reserve = [0], n_reserve = 1, next_buffer = 1, next_block = 1\<rparr>"

section \<open>Basic facts\<close>

lemma sint_add_fit:
  fixes a b :: c_int
  assumes "- 2147483648 \<le> sint a + sint b" "sint a + sint b < 2147483648"
  shows "sint (a + b) = sint a + sint b"
  using assms by (simp add: sint_word_ariths signed_take_bit_int_eq_self)

lemma unat_succ_le:
  fixes c :: c_int
  shows "unat (c + 1) \<le> Suc (unat c)"
proof -
  have "unat (c + 1) = (unat c + 1) mod 2 ^ 32"
    by (simp add: unat_word_ariths)
  also have "\<dots> \<le> unat c + 1" by (rule mod_less_eq_dividend)
  finally show ?thesis by simp
qed

lemma unat_pred:
  fixes c :: c_int
  assumes "c \<noteq> 0"
  shows "unat (c - 1) = unat c - 1"
  using assms by (rule unat_minus_one)


lemma succ_nonzero:
  fixes c :: c_int
  assumes "unat c < 4294967295"
  shows "c + 1 \<noteq> 0"
proof
  assume "c + 1 = 0"
  then have "c + 1 - 1 = 0 - 1" by simp
  then have "c = - 1" by simp
  then have "unat c = 4294967295" by (simp add: unsigned_minus_1_eq_mask mask_eq_exp_minus_1)
  with assms show False by simp
qed

lemma sint_of_nat_small:
  assumes "l \<le> 40"
  shows "sint (of_nat l :: c_int) = int l"
proof -
  have "signed_take_bit 31 (int l) = int l"
    using assms by (intro signed_take_bit_int_eq_self) auto
  then show ?thesis by (simp add: signed_of_nat)
qed

lemma pos_not_zero:
  fixes c :: c_int
  shows "0 < sint c \<Longrightarrow> c \<noteq> 0"
  by auto

lemma heap_modify [simp]:
  "heap (modify b f s) = (case heap s b of None \<Rightarrow> heap s | Some x \<Rightarrow> (heap s)(b \<mapsto> f x))"
  by (simp add: modify_def split: option.splits)

lemma modify_fields [simp]:
  "hash (modify b f s) = hash s" "reserve (modify b f s) = reserve s"
  "n_reserve (modify b f s) = n_reserve s" "next_buffer (modify b f s) = next_buffer s"
  "next_block (modify b f s) = next_block s"
  by (simp_all add: modify_def split: option.splits)

lemma zero_area_idem [simp]: "zero_area (zero_area x) = zero_area x"
  by (simp add: zero_area_def)

lemma zero_area_fields [simp]:
  "ref_count (zero_area x) = ref_count x" "im (zero_area x) = im x"
  "done_b (zero_area x) = done_b x" "cache (zero_area x) = cache x"
  "buf (zero_area x) = buf x" "bsize (zero_area x) = bsize x"
  "width (area (zero_area x)) = 0" "height (area (zero_area x)) = 0"
  "left (area (zero_area x)) = left (area x)" "top_r (area (zero_area x)) = top_r (area x)"
  by (simp_all add: zero_area_def)

lemma add_ref_fields [simp]:
  "ref_count (add_ref x) = ref_count x + 1" "im (add_ref x) = im x"
  "done_b (add_ref x) = done_b x" "cache (add_ref x) = cache x"
  "buf (add_ref x) = buf x" "bsize (add_ref x) = bsize x" "area (add_ref x) = area x"
  by (simp_all add: add_ref_def)

lemma buffers_of_simps [simp]:
  "buffers_of (modify b f s) k = buffers_of s k"
  "buffers_of (s\<lparr>hash := (hash s)(k' \<mapsto> l)\<rparr>) k = (if k = k' then l else buffers_of s k)"
  "buffers_of (s\<lparr>heap := h\<rparr>) k = buffers_of s k"
  "buffers_of (s\<lparr>reserve := r\<rparr>) k = buffers_of s k"
  "buffers_of (s\<lparr>n_reserve := n\<rparr>) k = buffers_of s k"
  "buffers_of (s\<lparr>next_buffer := nb\<rparr>) k = buffers_of s k"
  "buffers_of (s\<lparr>next_block := nk\<rparr>) k = buffers_of s k"
  by (simp_all add: buffers_of_def)

lemma encloses_refl [simp]: "encloses a a"
  by (simp add: encloses_def)


text \<open>
  Where the edges of both rectangles fit, the test of the code is the exact one; and the
  exact one puts every pixel of the inner rectangle in the outer one.
\<close>

lemma encloses_exact:
  assumes "edges_fit a" "edges_fit r"
  shows "encloses a r \<longleftrightarrow> exact_encloses a r"
proof -
  have "sint (left a + width a) = sint (left a) + sint (width a)"
    "sint (top_r a + height a) = sint (top_r a) + sint (height a)"
    "sint (left r + width r) = sint (left r) + sint (width r)"
    "sint (top_r r + height r) = sint (top_r r) + sint (height r)"
    using assms by (simp_all add: edges_fit_def sint_add_fit)
  then show ?thesis by (simp add: encloses_def exact_encloses_def)
qed


section \<open>The structure of the cache is kept by every operation\<close>

lemma wf_new: "cache_wf buffer_cache_new"
  by (simp add: cache_wf_def buffers_of_def buffer_cache_new_def)

lemma not_reserved:
  assumes "cache_wf s" "heap s b = Some x" "ref_count x \<noteq> 0 \<or> done_b x"
  shows "b \<notin> set (reserve s)"
  using assms unfolding cache_wf_def by auto

lemma wf_modify:
  assumes "cache_wf s" "heap s b = Some x" "b \<notin> set (reserve s)"
    "done_b (f x) = done_b x" "cache (f x) = cache x" "im (f x) = im x"
  shows "cache_wf (modify b f s)"
  using assms unfolding cache_wf_def buffer_ok_def
  by (auto)

lemma wf_done:
  assumes "cache_wf s" "heap s b = Some x" "ref_count x \<noteq> 0" "vips_buffer_done b s = Inr s'"
  shows "cache_wf s'"
proof (cases "done_b x")
  case True
  with assms show ?thesis by (simp add: vips_buffer_done_def)
next
  case False
  with assms have nin: "b \<notin> set (buffers_of s (im x))"
    and s': "s' = modify b (\<lambda>x. x\<lparr>done_b := True, cache := True\<rparr>)
                        (s\<lparr>hash := (hash s)(im x \<mapsto> b # buffers_of s (im x))\<rparr>)"
    by (auto simp: vips_buffer_done_def split: if_splits)
  have nr: "b \<notin> set (reserve s)" using not_reserved[OF assms(1,2)] assms(3) by simp
  show ?thesis
    using assms(1,2) nr False unfolding s' cache_wf_def buffer_ok_def
    by (auto)
qed

lemma wf_undone:
  assumes "cache_wf s" "heap s b = Some x" "ref_count x \<noteq> 0" "vips_buffer_undone b s = Inr s'"
  shows "cache_wf s'"
proof (cases "done_b x")
  case False
  with assms not_reserved[OF assms(1,2)] show ?thesis
    by (auto simp: vips_buffer_undone_def intro!: wf_modify)
next
  case True
  with assms obtain l where l: "hash s (im x) = Some l" "b \<in> set l"
    and s': "s' = modify b (\<lambda>x. zero_area (x\<lparr>done_b := False, cache := False\<rparr>))
                               (s\<lparr>hash := (hash s)(im x \<mapsto> remove1 b l)\<rparr>)"
    by (auto simp: vips_buffer_undone_def split: if_splits option.splits)
  have bl: "buffers_of s (im x) = l" using l by (simp add: buffers_of_def)
  have dl: "distinct l" using assms(1) bl unfolding cache_wf_def by blast
  have nr: "b \<notin> set (reserve s)" using not_reserved[OF assms(1,2)] assms(3) by simp
  show ?thesis
    using assms(1,2) nr True bl dl unfolding s' cache_wf_def buffer_ok_def
    by (auto)
qed

lemma wf_free:
  assumes "cache_wf s" "heap s b = Some x" "ref_count x \<noteq> 0" "\<not> done_b x"
  shows "cache_wf (vips_buffer_free b s)"
proof -
  have nr: "b \<notin> set (reserve s)" using not_reserved[OF assms(1,2)] assms(3) by simp
  show ?thesis
    using assms(1,2,4) nr unfolding cache_wf_def buffer_ok_def vips_buffer_free_def
    by (auto simp: buffers_of_def)
qed

lemma reserve_room:
  assumes "cache_wf s" "sint (n_reserve s) < sint buffer_cache_max_reserve"
  shows "length (reserve s) < 40"
proof -
  from assms(1) have n: "n_reserve s = of_nat (length (reserve s))" "length (reserve s) \<le> 40"
    unfolding cache_wf_def by auto
  with assms(2) sint_of_nat_small[OF n(2)] show ?thesis
    by (simp add: buffer_cache_max_reserve_def)
qed

lemma reserve_full:
  assumes "cache_wf s" "\<not> sint (n_reserve s) < sint buffer_cache_max_reserve"
  shows "length (reserve s) = 40"
proof -
  from assms(1) have n: "n_reserve s = of_nat (length (reserve s))" "length (reserve s) \<le> 40"
    unfolding cache_wf_def by auto
  with assms(2) sint_of_nat_small[OF n(2)] show ?thesis
    by (simp add: buffer_cache_max_reserve_def)
qed

lemma wf_park:
  assumes "cache_wf s" "heap s b = Some x" "ref_count x = 1" "\<not> done_b x"
    "sint (n_reserve s) < sint buffer_cache_max_reserve"
  shows "cache_wf (modify b (\<lambda>x. zero_area (x\<lparr>ref_count := 0, done_b := False, cache := False, im := None\<rparr>))
            (s\<lparr>reserve := b # reserve s, n_reserve := n_reserve s + 1\<rparr>))"
proof -
  have nr: "b \<notin> set (reserve s)" using not_reserved[OF assms(1,2)] assms(3) by simp
  have l: "length (reserve s) < 40" by (rule reserve_room[OF assms(1,5)])
  show ?thesis
    using assms(1,2,4) nr l unfolding cache_wf_def buffer_ok_def
    by (auto)
qed

lemma undone_heap:
  assumes "vips_buffer_undone b s = Inr s'"
  shows "\<exists>x. heap s b = Some x \<and>
           heap s' = (heap s)(b \<mapsto> zero_area (x\<lparr>done_b := False, cache := cache x \<and> \<not> done_b x\<rparr>))"
  using assms
  by (auto simp: vips_buffer_undone_def modify_def fun_eq_iff zero_area_def split: option.splits if_splits)

lemma undone_frame:
  assumes "vips_buffer_undone b s = Inr s'"
  shows "reserve s' = reserve s" "n_reserve s' = n_reserve s" "next_buffer s' = next_buffer s"
    "next_block s' = next_block s"
  using assms
  by (auto simp: vips_buffer_undone_def split: option.splits if_splits)

lemma unref_last:
  assumes "heap s b = Some x" "ref_count x = 1"
  shows "vips_buffer_unref b s =
    (case vips_buffer_undone b s of
       Inl e \<Rightarrow> Inl e
     | Inr s2 \<Rightarrow>
         if sint (n_reserve s2) < sint buffer_cache_max_reserve then
           Inr (modify b (\<lambda>x. zero_area (x\<lparr>ref_count := 0, done_b := False, cache := False, im := None\<rparr>))
                  (s2\<lparr>reserve := b # reserve s2, n_reserve := n_reserve s2 + 1\<rparr>))
         else Inr (vips_buffer_free b s2))"
  using assms
  by (auto simp: vips_buffer_unref_def vips_buffer_undone_def modify_def vips_buffer_free_def zero_area_def
      split: option.splits sum.splits)

lemma wf_unref:
  assumes "cache_wf s" "vips_buffer_unref b s = Inr s'"
  shows "cache_wf s'"
proof -
  from assms(2) obtain x where x: "heap s b = Some x" "0 < sint (ref_count x)"
    by (auto simp: vips_buffer_unref_def split: option.splits if_splits)
  then have nz: "ref_count x \<noteq> 0" by auto
  show ?thesis
  proof (cases "ref_count x = 1")
    case False
    with assms x not_reserved[OF assms(1) x(1)] nz show ?thesis
      by (auto simp: vips_buffer_unref_def Let_def intro!: wf_modify)
  next
    case True
    with assms(2) x obtain s2 where s2: "vips_buffer_undone b s = Inr s2"
      and s': "s' = (if sint (n_reserve s2) < sint buffer_cache_max_reserve then
           (modify b (\<lambda>x. zero_area (x\<lparr>ref_count := 0, done_b := False, cache := False, im := None\<rparr>))
                  (s2\<lparr>reserve := b # reserve s2, n_reserve := n_reserve s2 + 1\<rparr>))
         else (vips_buffer_free b s2))"
      by (auto simp: unref_last split: sum.splits if_splits)
    have w2: "cache_wf s2" using wf_undone[OF assms(1) x(1) nz s2] .
    from undone_heap[OF s2] x True obtain x2 where
      x2: "heap s2 b = Some x2" "ref_count x2 = 1" "\<not> done_b x2"
      by auto
    show ?thesis
      unfolding s' using wf_park[OF w2 x2] wf_free[OF w2 x2(1)] x2 by auto
  qed
qed

lemma move_post:
  assumes "buffer_move E mem b a s = Inr (rc, s')"
  shows "\<exists>x x'. heap s b = Some x \<and> ref_count x = 1 \<and> heap s' b = Some x' \<and> ref_count x' = 1 \<and>
           \<not> done_b x' \<and> area x' = a \<and> im x' = im x \<and> (rc = 0 \<or> rc = - 1) \<and>
           (rc = - 1 \<longrightarrow> \<not> mem)"
  using assms
  by (auto simp: buffer_move_def Let_def split: option.splits if_splits sum.splits
      dest!: undone_heap)

lemma wf_move:
  assumes "cache_wf s" "buffer_move E mem b a s = Inr (rc, s')"
  shows "cache_wf s'"
proof -
  from assms(2) obtain x s1 where x: "heap s b = Some x" "ref_count x = 1"
    and s1: "vips_buffer_undone b s = Inr s1"
    by (auto simp: buffer_move_def split: option.splits if_splits sum.splits)
  have w1: "cache_wf s1" using wf_undone[OF assms(1) x(1) _ s1] x(2) by simp
  from undone_heap[OF s1] x obtain x1 where x1: "heap s1 b = Some x1" "ref_count x1 = 1"
    by auto
  have nr1: "b \<notin> set (reserve s1)" using not_reserved[OF w1 x1(1)] x1(2) by simp
  have w2: "cache_wf (modify b (\<lambda>x. x\<lparr>area := a\<rparr>) s1)"
    using wf_modify[OF w1 x1(1) nr1] by simp
  have x2: "heap (modify b (\<lambda>x. x\<lparr>area := a\<rparr>) s1) b = Some (x1\<lparr>area := a\<rparr>)"
    using x1 by simp
  have nb: "\<And>t n. cache_wf t \<Longrightarrow> cache_wf (t\<lparr>next_block := n\<rparr>)"
    by (simp add: cache_wf_def buffer_ok_def buffers_of_def)
  note w3 = nb[OF w2]
  have x3: "\<And>n. heap (modify b (\<lambda>x. x\<lparr>area := a\<rparr>) s1\<lparr>next_block := n\<rparr>) b = Some (x1\<lparr>area := a\<rparr>)"
    using x1 by simp
  have nr2: "b \<notin> set (reserve (modify b (\<lambda>x. x\<lparr>area := a\<rparr>) s1))"
    "\<And>n. b \<notin> set (reserve (modify b (\<lambda>x. x\<lparr>area := a\<rparr>) s1\<lparr>next_block := n\<rparr>))"
    using nr1 by simp_all
  show ?thesis
    using assms(2) x s1 x1 wf_modify[OF w2 x2 nr2(1)] wf_modify[OF w3 x3 nr2(2)] w2
    by (auto simp: buffer_move_def Let_def split: option.splits if_splits)
qed

lemma find_loop_Some:
  assumes "find_loop h r l = Inr (Some p)"
  shows "p \<in> set l \<and> (\<exists>x. h p = Some x \<and> encloses (area x) r)"
  using assms
  by (induction l) (auto split: option.splits if_splits)

lemma wf_find:
  assumes "cache_wf s" "buffer_find i r s = Inr (res, s')"
  shows "cache_wf s'"
proof (cases res)
  case None
  with assms show ?thesis
    by (auto simp: buffer_find_def split: sum.splits option.splits)
next
  case (Some p)
  with assms(2) have fl: "find_loop (heap s) r (buffers_of s (Some i)) = Inr (Some p)"
    and s': "s' = modify p add_ref s"
    by (auto simp: buffer_find_def split: sum.splits option.splits)
  from find_loop_Some[OF fl] assms(1) obtain x where x: "heap s p = Some x" "done_b x"
    unfolding cache_wf_def by auto
  from not_reserved[OF assms(1) x(1)] x(2) have "p \<notin> set (reserve s)" by simp
  with x show ?thesis unfolding s' using assms(1) by (auto intro!: wf_modify)
qed

lemma wf_buffer_new:
  assumes "cache_wf s" "vips_buffer_new E mem i a s = Inr (res, s')"
  shows "cache_wf s'"
proof -
  define b where "b = (case reserve s of r # rs \<Rightarrow> r | [] \<Rightarrow> next_buffer s)"
  define s1 where "s1 = (case reserve s of
           r # rs \<Rightarrow>
             modify r (\<lambda>x. x\<lparr>ref_count := 1, im := Some i, done_b := False, cache := False\<rparr>)
                   (s\<lparr>reserve := remove1 r (reserve s), n_reserve := n_reserve s - 1\<rparr>)
         | [] \<Rightarrow>
              s\<lparr>heap := (heap s)(next_buffer s \<mapsto>
                     \<lparr>ref_count = 1, im = Some i,
                      area = \<lparr>left = 0, top_r = 0, width = 0, height = 0\<rparr>,
                      done_b = False, cache = False, buf = None, bsize = 0\<rparr>),
                next_buffer := Suc (next_buffer s)\<rparr>)"
  have w1: "cache_wf s1"
  proof (cases "reserve s")
    case Nil
    have fresh: "heap s (next_buffer s) = None"
      using assms(1) unfolding cache_wf_def buffer_ok_def by (cases "heap s (next_buffer s)") auto
    show ?thesis
      using assms(1) Nil fresh unfolding s1_def cache_wf_def buffer_ok_def
      by (auto simp: buffers_of_def less_Suc_eq)
  next
    case (Cons r rs)
    with assms(1) obtain xr where xr: "heap s r = Some xr" "ref_count xr = 0" "\<not> done_b xr"
      unfolding cache_wf_def by (metis list.set_intros(1))
    show ?thesis
      using assms(1) Cons xr unfolding s1_def cache_wf_def buffer_ok_def
      by (auto)
  qed
  from assms(2) obtain rc s2 where mv: "buffer_move E mem b a s1 = Inr (rc, s2)"
    and s': "s' = (if rc \<noteq> 0 then vips_buffer_free b s2 else s2)"
    by (auto simp: vips_buffer_new_def b_def s1_def split: list.splits sum.splits if_splits)
  have w2: "cache_wf s2" using wf_move[OF w1 mv] .
  from move_post[OF mv] obtain x' where "heap s2 b = Some x'" "ref_count x' = 1" "\<not> done_b x'"
    by auto
  then show ?thesis unfolding s' using w2 wf_free[of s2 b x'] by auto
qed

lemma unref_ref_None:
  "vips_buffer_unref_ref E mem None i a s = vips_buffer_ref E mem i a s"
  by (simp add: vips_buffer_unref_ref_def vips_buffer_ref_def)

lemma unref_ref_Some:
  assumes "heap s ob = Some x" "im x = Some i" "\<not> vips_rect_includesrect E (area x) a"
  shows "vips_buffer_unref_ref E mem (Some ob) i a s =
    (case buffer_find i a s of
       Inl e \<Rightarrow> Inl e
     | Inr (Some b, s1) \<Rightarrow>
         (case vips_buffer_unref ob s1 of Inl e \<Rightarrow> Inl e | Inr s2 \<Rightarrow> Inr (Some b, s2))
     | Inr (None, s1) \<Rightarrow>
         if ref_count x = 1 then
           (case buffer_move E mem ob a s1 of
              Inl e \<Rightarrow> Inl e
            | Inr (rc, s2) \<Rightarrow>
                if rc \<noteq> 0 then
                  (case vips_buffer_unref ob s2 of Inl e \<Rightarrow> Inl e | Inr s3 \<Rightarrow> Inr (None, s3))
                else Inr (Some ob, s2))
         else
           (case vips_buffer_unref ob s1 of
              Inl e \<Rightarrow> Inl e
            | Inr s2 \<Rightarrow> vips_buffer_new E mem i a s2))"
  using assms by (simp add: vips_buffer_unref_ref_def)

text \<open>
  \<^verbatim>\<open>vips_buffer_ref\<close> and \<^verbatim>\<open>vips_buffer_unref_ref\<close> call \<^verbatim>\<open>buffer_find\<close> once, on the
  state they start in, and then the other three inner functions. A property that holds
  after that lookup and that the other three keep holds when they return.
\<close>

lemma ref_preserves:
  assumes find: "\<And>r s'. buffer_find i a s = Inr (r, s') \<Longrightarrow> P s'"
    and new: "\<And>s r s'. P s \<Longrightarrow> vips_buffer_new E mem i a s = Inr (r, s') \<Longrightarrow> P s'"
    and "vips_buffer_ref E mem i a s = Inr (res, s')"
  shows "P s'"
proof -
  from assms(3) obtain r1 s1 where f: "buffer_find i a s = Inr (r1, s1)"
    by (auto simp: vips_buffer_ref_def split: sum.splits)
  have p1: "P s1" by (rule find[OF f])
  show ?thesis
  proof (cases r1)
    case None
    with assms(3) f have "vips_buffer_new E mem i a s1 = Inr (res, s')"
      by (simp add: vips_buffer_ref_def)
    then show ?thesis by (rule new[OF p1])
  next
    case (Some p)
    with assms(3) f have "s' = s1" by (simp add: vips_buffer_ref_def)
    with p1 show ?thesis by simp
  qed
qed

lemma unref_ref_preserves:
  assumes find: "\<And>r s'. buffer_find i a s = Inr (r, s') \<Longrightarrow> P s'"
    and new: "\<And>s r s'. P s \<Longrightarrow> vips_buffer_new E mem i a s = Inr (r, s') \<Longrightarrow> P s'"
    and unref: "\<And>s b s'. P s \<Longrightarrow> vips_buffer_unref b s = Inr s' \<Longrightarrow> P s'"
    and move: "\<And>s b rc s'. P s \<Longrightarrow> buffer_move E mem b a s = Inr (rc, s') \<Longrightarrow> P s'"
    and "P s" "vips_buffer_unref_ref E mem old i a s = Inr (res, s')"
  shows "P s'"
proof (cases old)
  case None
  with assms(6) have r: "vips_buffer_ref E mem i a s = Inr (res, s')"
    by (simp add: unref_ref_None)
  show ?thesis
    by (rule ref_preserves[where P = P, OF _ _ r]) (blast intro: find new)+
next
  case (Some ob)
  with assms(6) obtain x where x: "heap s ob = Some x" "im x = Some i"
    by (auto simp: vips_buffer_unref_ref_def split: option.splits if_splits)
  show ?thesis
  proof (cases "vips_rect_includesrect E (area x) a")
    case True
    with assms(5,6) Some x show ?thesis by (simp add: vips_buffer_unref_ref_def)
  next
    case False
    note rest = assms(6)[unfolded Some unref_ref_Some[OF x False]]
    from rest obtain r1 s1 where f: "buffer_find i a s = Inr (r1, s1)"
      by (auto split: sum.splits)
    have p1: "P s1" by (rule find[OF f])
    show ?thesis
    proof (cases r1)
      case (Some p)
      with rest f have "vips_buffer_unref ob s1 = Inr s'"
        by (auto split: sum.splits)
      then show ?thesis by (rule unref[OF p1])
    next
      case None
      show ?thesis
      proof (cases "ref_count x = 1")
        case True
        with rest f None obtain rc s2 where mv: "buffer_move E mem ob a s1 = Inr (rc, s2)"
          by (auto split: sum.splits)
        have p2: "P s2" by (rule move[OF p1 mv])
        show ?thesis
        proof (cases "rc = 0")
          case True
          with rest f None \<open>ref_count x = 1\<close> mv have "s' = s2" by simp
          with p2 show ?thesis by simp
        next
          case False
          with rest f None \<open>ref_count x = 1\<close> mv have "vips_buffer_unref ob s2 = Inr s'"
            by (auto split: sum.splits)
          then show ?thesis by (rule unref[OF p2])
        qed
      next
        case False
        with rest f None obtain s2 where u: "vips_buffer_unref ob s1 = Inr s2"
          and n: "vips_buffer_new E mem i a s2 = Inr (res, s')"
          by (auto split: sum.splits)
        show ?thesis by (rule new[OF unref[OF p1 u] n])
      qed
    qed
  qed
qed

lemma wf_ref:
  assumes "cache_wf s" "vips_buffer_ref E mem i a s = Inr (res, s')"
  shows "cache_wf s'"
  by (rule ref_preserves[where P = cache_wf, OF _ _ assms(2)])
    (blast intro: wf_find[OF assms(1)] wf_buffer_new)+

lemma wf_unref_ref:
  assumes "cache_wf s" "vips_buffer_unref_ref E mem old i a s = Inr (res, s')"
  shows "cache_wf s'"
  by (rule unref_ref_preserves[where P = cache_wf, OF _ _ _ _ assms])
    (blast intro: wf_find[OF assms(1)] wf_buffer_new wf_unref wf_move)+

lemma wf_exec:
  assumes "cache_wf s" "permitted s c" "exec E c s = Inr s'"
  shows "cache_wf s'"
proof (cases c)
  case (Acquire i a mem)
  with assms show ?thesis by (auto split: sum.splits prod.splits dest: wf_ref)
next
  case (SwapReference old i a mem)
  with assms show ?thesis by (auto split: sum.splits prod.splits dest: wf_unref_ref)
next
  case (Publish b)
  with assms obtain x where x: "heap s b = Some x" "0 < sint (ref_count x)"
    by (auto simp: holds_ref_def split: option.splits)
  then have "ref_count x \<noteq> 0" by auto
  with assms Publish x show ?thesis by (auto dest: wf_done)
next
  case (Unpublish b)
  with assms obtain x where x: "heap s b = Some x" "0 < sint (ref_count x)"
    by (auto simp: holds_ref_def split: option.splits)
  then have "ref_count x \<noteq> 0" by auto
  with assms Unpublish x show ?thesis by (auto dest: wf_undone)
next
  case (Release b)
  with assms show ?thesis by (auto dest: wf_unref)
qed

lemma wf_run:
  assumes "cache_wf s" "run E cs s = Some s'"
  shows "cache_wf s'"
  using assms
proof (induction cs arbitrary: s)
  case Nil
  then show ?case by simp
next
  case (Cons c cs)
  then show ?case
    by (auto split: if_splits sum.splits dest: wf_exec)
qed

lemma reachable_wf: "run E cs buffer_cache_new = Some s \<Longrightarrow> cache_wf s"
  by (rule wf_run[OF wf_new])

lemmas op_defs = vips_buffer_ref_def vips_buffer_new_def buffer_find_def buffer_move_def
  vips_buffer_undone_def vips_buffer_done_def vips_buffer_unref_def vips_buffer_unref_ref_def
  vips_buffer_free_def modify_def buffers_of_def buffer_cache_new_def E0_def rect_def
  encloses_def zero_area_def add_ref_def buffer_cache_max_reserve_def holds_ref_def

section \<open>Reference counts\<close>

lemma le_mono:
  assumes "counts_le n s" "n \<le> m"
  shows "counts_le m s"
  using assms unfolding counts_le_def by fastforce

lemma le_modify:
  assumes "counts_le n s"
    "\<And>x. heap s b = Some x \<Longrightarrow> unat (ref_count x) \<le> n \<Longrightarrow> unat (ref_count (f x)) \<le> n"
  shows "counts_le n (modify b f s)"
  using assms by (auto simp: counts_le_def split: option.splits)

lemma le_fields [simp]:
  "counts_le n (s\<lparr>hash := h\<rparr>) = counts_le n s"
  "counts_le n (s\<lparr>reserve := r\<rparr>) = counts_le n s"
  "counts_le n (s\<lparr>n_reserve := k\<rparr>) = counts_le n s"
  "counts_le n (s\<lparr>next_buffer := nb\<rparr>) = counts_le n s"
  "counts_le n (s\<lparr>next_block := nk\<rparr>) = counts_le n s"
  by (simp_all add: counts_le_def)

lemma le_free: "counts_le n s \<Longrightarrow> counts_le n (vips_buffer_free b s)"
  by (auto simp: counts_le_def vips_buffer_free_def)

lemma le_done:
  assumes "counts_le n s" "vips_buffer_done b s = Inr s'"
  shows "counts_le n s'"
  using assms
  by (auto simp: vips_buffer_done_def split: option.splits if_splits intro!: le_modify)

lemma le_undone:
  assumes "counts_le n s" "vips_buffer_undone b s = Inr s'"
  shows "counts_le n s'"
  using assms
  by (auto simp: vips_buffer_undone_def split: option.splits if_splits intro!: le_modify)

lemma le_unref:
  assumes "counts_le n s" "vips_buffer_unref b s = Inr s'"
  shows "counts_le n s'"
proof -
  from assms(2) obtain x where x: "heap s b = Some x" "0 < sint (ref_count x)"
    by (auto simp: vips_buffer_unref_def split: option.splits if_splits)
  then have "ref_count x \<noteq> 0" by auto
  then have p: "unat (ref_count x - 1) = unat (ref_count x) - 1" by (rule unat_pred)
  from assms(1) x(1) have c: "unat (ref_count x) \<le> n"
    unfolding counts_le_def by blast
  have n1: "counts_le n (modify b (\<lambda>x. x\<lparr>ref_count := ref_count x - 1\<rparr>) s)"
    using x p c by (intro le_modify[OF assms(1)]) auto
  show ?thesis
    using assms(2) x n1
    by (auto simp: vips_buffer_unref_def Let_def split: if_splits sum.splits
        intro!: le_modify le_free dest: le_undone)
qed

lemma le_move:
  assumes "counts_le n s" "buffer_move E mem b a s = Inr (rc, s')"
  shows "counts_le n s'"
  using assms
  by (auto simp: buffer_move_def Let_def split: option.splits if_splits sum.splits
      intro!: le_modify dest: le_undone)

lemma le_find:
  assumes "counts_le n s" "buffer_find i r s = Inr (res, s')"
  shows "counts_le (Suc n) s'"
proof (cases res)
  case None
  with assms show ?thesis
    by (auto simp: buffer_find_def split: sum.splits option.splits intro: le_mono)
next
  case (Some p)
  with assms(2) have s': "s' = modify p add_ref s"
    by (auto simp: buffer_find_def split: sum.splits option.splits)
  have m: "counts_le (Suc n) s" using assms(1) by (rule le_mono) simp
  show ?thesis
    unfolding s'
  proof (rule le_modify[OF m])
    fix x
    assume "heap s p = Some x"
    with assms(1) have "unat (ref_count x) \<le> n"
      unfolding counts_le_def by auto
    with unat_succ_le[of "ref_count x"] show "unat (ref_count (add_ref x)) \<le> Suc n"
      by simp
  qed
qed

lemma le_buffer_new:
  assumes "counts_le n s" "1 \<le> n" "vips_buffer_new E mem i a s = Inr (res, s')"
  shows "counts_le n s'"
proof -
  define s1 where "s1 = (case reserve s of
           r # rs \<Rightarrow>
             modify r (\<lambda>x. x\<lparr>ref_count := 1, im := Some i, done_b := False, cache := False\<rparr>)
                   (s\<lparr>reserve := remove1 r (reserve s), n_reserve := n_reserve s - 1\<rparr>)
         | [] \<Rightarrow>
              s\<lparr>heap := (heap s)(next_buffer s \<mapsto>
                     \<lparr>ref_count = 1, im = Some i,
                      area = \<lparr>left = 0, top_r = 0, width = 0, height = 0\<rparr>,
                      done_b = False, cache = False, buf = None, bsize = 0\<rparr>),
                next_buffer := Suc (next_buffer s)\<rparr>)"
  have n1: "counts_le n s1"
    using assms(1,2) unfolding s1_def
    by (auto simp: counts_le_def split: list.splits option.splits)
  from assms(3) obtain b rc s2 where mv: "buffer_move E mem b a s1 = Inr (rc, s2)"
    and s': "s' = (if rc \<noteq> 0 then vips_buffer_free b s2 else s2)"
    by (auto simp: vips_buffer_new_def s1_def split: list.splits sum.splits if_splits)
  show ?thesis unfolding s' using le_move[OF n1 mv] by (simp add: le_free)
qed

lemma le_exec:
  assumes "counts_le n s" "exec E c s = Inr s'"
  shows "counts_le (Suc n) s'"
proof -
  have m: "counts_le (Suc n) s" using assms(1) by (rule le_mono) simp
  have new: "\<And>i a mem t r t'. counts_le (Suc n) t \<Longrightarrow>
      vips_buffer_new E mem i a t = Inr (r, t') \<Longrightarrow> counts_le (Suc n) t'"
    by (erule le_buffer_new) simp_all
  show ?thesis
  proof (cases c)
    case (Acquire i a mem)
    with assms obtain r where r: "vips_buffer_ref E mem i a s = Inr (r, s')"
      by (auto split: sum.splits)
    show ?thesis
    proof (rule ref_preserves[where P = "counts_le (Suc n)", OF _ _ r])
      show "\<And>r s'. buffer_find i a s = Inr (r, s') \<Longrightarrow> counts_le (Suc n) s'"
        by (rule le_find[OF assms(1)])
      show "\<And>s r s'. counts_le (Suc n) s \<Longrightarrow> vips_buffer_new E mem i a s = Inr (r, s')
          \<Longrightarrow> counts_le (Suc n) s'"
        by (rule new)
    qed
  next
    case (SwapReference old i a mem)
    with assms obtain r where r: "vips_buffer_unref_ref E mem old i a s = Inr (r, s')"
      by (auto split: sum.splits)
    show ?thesis
    proof (rule unref_ref_preserves[where P = "counts_le (Suc n)", OF _ _ _ _ m r])
      show "\<And>r s'. buffer_find i a s = Inr (r, s') \<Longrightarrow> counts_le (Suc n) s'"
        by (rule le_find[OF assms(1)])
      show "\<And>s r s'. counts_le (Suc n) s \<Longrightarrow> vips_buffer_new E mem i a s = Inr (r, s')
          \<Longrightarrow> counts_le (Suc n) s'"
        by (rule new)
      show "\<And>s b s'. counts_le (Suc n) s \<Longrightarrow> vips_buffer_unref b s = Inr s'
          \<Longrightarrow> counts_le (Suc n) s'"
        by (rule le_unref)
      show "\<And>s b rc s'. counts_le (Suc n) s \<Longrightarrow> buffer_move E mem b a s = Inr (rc, s')
          \<Longrightarrow> counts_le (Suc n) s'"
        by (rule le_move)
    qed
  next
    case (Publish b)
    with assms(2) have "vips_buffer_done b s = Inr s'" by simp
    then show ?thesis by (rule le_done[OF m])
  next
    case (Unpublish b)
    with assms(2) have "vips_buffer_undone b s = Inr s'" by simp
    then show ?thesis by (rule le_undone[OF m])
  next
    case (Release b)
    with assms(2) have "vips_buffer_unref b s = Inr s'" by simp
    then show ?thesis by (rule le_unref[OF m])
  qed
qed


lemma le_new: "counts_le 0 buffer_cache_new"
  by (simp add: counts_le_def buffer_cache_new_def)

text \<open>The counts tell the truth as long as no count has gone round to 0.\<close>

lemma ok_new: "counts_ok buffer_cache_new"
  by (simp add: counts_ok_def buffer_cache_new_def)

lemma ok_modify:
  assumes "counts_ok s" "heap s b = Some x" "done_b (f x) = done_b x"
    "ref_count (f x) = 0 \<longleftrightarrow> ref_count x = 0"
  shows "counts_ok (modify b f s)"
  using assms by (auto simp: counts_ok_def)

lemma ok_next_block [simp]: "counts_ok (s\<lparr>next_block := n\<rparr>) = counts_ok s"
  by (simp add: counts_ok_def)

lemma ok_free: "counts_ok s \<Longrightarrow> counts_ok (vips_buffer_free b s)"
  by (auto simp: counts_ok_def vips_buffer_free_def)

lemma ok_done:
  assumes "counts_ok s" "heap s b = Some x" "ref_count x \<noteq> 0" "vips_buffer_done b s = Inr s'"
  shows "counts_ok s'"
  using assms
  by (auto simp: vips_buffer_done_def counts_ok_def split: if_splits)

lemma ok_undone:
  assumes "counts_ok s" "vips_buffer_undone b s = Inr s'"
  shows "counts_ok s'"
proof -
  from undone_heap[OF assms(2)] obtain x where x: "heap s b = Some x"
    and h: "heap s' = (heap s)(b \<mapsto> zero_area (x\<lparr>done_b := False, cache := cache x \<and> \<not> done_b x\<rparr>))"
    by blast
  show ?thesis
    using assms(1) x undone_frame(1)[OF assms(2)] unfolding counts_ok_def h
    by auto
qed

lemma ok_unref:
  assumes "cache_wf s" "counts_ok s" "vips_buffer_unref b s = Inr s'"
  shows "counts_ok s'"
proof -
  from assms(3) obtain x where x: "heap s b = Some x" "0 < sint (ref_count x)"
    by (auto simp: vips_buffer_unref_def split: option.splits if_splits)
  show ?thesis
  proof (cases "ref_count x = 1")
    case False
    then have "ref_count x - 1 \<noteq> 0" by simp
    with assms(2,3) x False show ?thesis
      by (auto simp: vips_buffer_unref_def Let_def intro!: ok_modify)
  next
    case True
    with assms(3) x obtain s2 where s2: "vips_buffer_undone b s = Inr s2"
      and s': "s' = (if sint (n_reserve s2) < sint buffer_cache_max_reserve then
           (modify b (\<lambda>x. zero_area (x\<lparr>ref_count := 0, done_b := False, cache := False, im := None\<rparr>))
                  (s2\<lparr>reserve := b # reserve s2, n_reserve := n_reserve s2 + 1\<rparr>))
         else (vips_buffer_free b s2))"
      by (auto simp: unref_last split: sum.splits if_splits)
    have o2: "counts_ok s2" by (rule ok_undone[OF assms(2) s2])
    from undone_heap[OF s2] x obtain x2 where x2: "heap s2 b = Some x2" by auto
    have park: "counts_ok (modify b
        (\<lambda>x. zero_area (x\<lparr>ref_count := 0, done_b := False, cache := False, im := None\<rparr>))
        (s2\<lparr>reserve := b # reserve s2, n_reserve := n_reserve s2 + 1\<rparr>))"
      using o2 x2 by (auto simp: counts_ok_def)
    have fr: "counts_ok (vips_buffer_free b s2)" by (rule ok_free[OF o2])
    show ?thesis unfolding s' using park fr by simp
  qed
qed

lemma ok_move:
  assumes "counts_ok s" "buffer_move E mem b a s = Inr (rc, s')"
  shows "counts_ok s'"
proof -
  from assms(2) obtain x s1 where x: "heap s b = Some x" "ref_count x = 1"
    and s1: "vips_buffer_undone b s = Inr s1"
    by (auto simp: buffer_move_def split: option.splits if_splits sum.splits)
  have o1: "counts_ok s1" by (rule ok_undone[OF assms(1) s1])
  from undone_heap[OF s1] x obtain x1 where x1: "heap s1 b = Some x1" by auto
  have o2: "counts_ok (modify b (\<lambda>x. x\<lparr>area := a\<rparr>) s1)"
    using ok_modify[OF o1 x1] by simp
  have x2: "\<And>n. heap (modify b (\<lambda>x. x\<lparr>area := a\<rparr>) s1\<lparr>next_block := n\<rparr>) b = Some (x1\<lparr>area := a\<rparr>)"
    "heap (modify b (\<lambda>x. x\<lparr>area := a\<rparr>) s1) b = Some (x1\<lparr>area := a\<rparr>)"
    using x1 by simp_all
  have o3: "\<And>n. counts_ok (modify b (\<lambda>x. x\<lparr>area := a\<rparr>) s1\<lparr>next_block := n\<rparr>)"
    using o2 by simp
  show ?thesis
    using assms(2) x s1 o2 ok_modify[OF o2 x2(2)] ok_modify[OF o3 x2(1)]
    by (auto simp: buffer_move_def Let_def split: option.splits if_splits)
qed

lemma ok_find:
  assumes "cache_wf s" "counts_ok s" "counts_le n s" "n < 4294967295"
    "buffer_find i r s = Inr (res, s')"
  shows "counts_ok s'"
proof (cases res)
  case None
  with assms show ?thesis
    by (auto simp: buffer_find_def split: sum.splits option.splits)
next
  case (Some p)
  with assms(5) have fl: "find_loop (heap s) r (buffers_of s (Some i)) = Inr (Some p)"
    and s': "s' = modify p add_ref s"
    by (auto simp: buffer_find_def split: sum.splits option.splits)
  from find_loop_Some[OF fl] assms(1) obtain x where x: "heap s p = Some x" "done_b x"
    unfolding cache_wf_def by auto
  with assms(2) have nz: "ref_count x \<noteq> 0" unfolding counts_ok_def by blast
  from assms(3) x(1) have "unat (ref_count x) \<le> n"
    unfolding counts_le_def by auto
  with assms(4) have "unat (ref_count x) < 4294967295" by simp
  then have "ref_count x + 1 \<noteq> 0" by (rule succ_nonzero)
  with nz x show ?thesis unfolding s' using assms(2) by (auto intro!: ok_modify)
qed

lemma ok_buffer_new:
  assumes "cache_wf s" "counts_ok s" "vips_buffer_new E mem i a s = Inr (res, s')"
  shows "counts_ok s'"
proof -
  define s1 where "s1 = (case reserve s of
           r # rs \<Rightarrow>
             modify r (\<lambda>x. x\<lparr>ref_count := 1, im := Some i, done_b := False, cache := False\<rparr>)
                   (s\<lparr>reserve := remove1 r (reserve s), n_reserve := n_reserve s - 1\<rparr>)
         | [] \<Rightarrow>
              s\<lparr>heap := (heap s)(next_buffer s \<mapsto>
                     \<lparr>ref_count = 1, im = Some i,
                      area = \<lparr>left = 0, top_r = 0, width = 0, height = 0\<rparr>,
                      done_b = False, cache = False, buf = None, bsize = 0\<rparr>),
                next_buffer := Suc (next_buffer s)\<rparr>)"
  have o1: "counts_ok s1"
  proof (cases "reserve s")
    case Nil
    then show ?thesis
      using assms(2) unfolding s1_def counts_ok_def by auto
  next
    case (Cons r rs)
    with assms(1) obtain xr where xr: "heap s r = Some xr"
      unfolding cache_wf_def by (metis list.set_intros(1))
    show ?thesis
      using assms(2) Cons xr unfolding s1_def counts_ok_def by auto
  qed
  from assms(3) obtain b rc s2 where mv: "buffer_move E mem b a s1 = Inr (rc, s2)"
    and s': "s' = (if rc \<noteq> 0 then vips_buffer_free b s2 else s2)"
    by (auto simp: vips_buffer_new_def s1_def split: list.splits sum.splits if_splits)
  show ?thesis unfolding s' using ok_move[OF o1 mv] by (simp add: ok_free)
qed

text \<open>The three invariants together, along a run of permitted calls.\<close>

lemma strong_exec:
  assumes "cache_wf s" "counts_ok s" "counts_le n s" "n < 4294967295"
    "permitted s c" "exec E c s = Inr s'"
  shows "counts_ok s'"
proof -
  let ?P = "\<lambda>t. cache_wf t \<and> counts_ok t"
  have find: "\<And>i a r t. buffer_find i a s = Inr (r, t) \<Longrightarrow> ?P t"
    using wf_find[OF assms(1)] ok_find[OF assms(1-4)] by blast
  have new: "\<And>i a mem t r t'. ?P t \<Longrightarrow> vips_buffer_new E mem i a t = Inr (r, t') \<Longrightarrow> ?P t'"
    using wf_buffer_new ok_buffer_new by blast
  have unref: "\<And>t b t'. ?P t \<Longrightarrow> vips_buffer_unref b t = Inr t' \<Longrightarrow> ?P t'"
    using wf_unref ok_unref by blast
  have move: "\<And>a mem t b rc t'. ?P t \<Longrightarrow> buffer_move E mem b a t = Inr (rc, t') \<Longrightarrow> ?P t'"
    using wf_move ok_move by blast
  have p: "?P s" using assms(1,2) by simp
  show ?thesis
  proof (cases c)
    case (Acquire i a mem)
    with assms(6) obtain r where r: "vips_buffer_ref E mem i a s = Inr (r, s')"
      by (auto split: sum.splits)
    have "?P s'"
    proof (rule ref_preserves[where P = ?P, OF _ _ r])
      show "\<And>r s'. buffer_find i a s = Inr (r, s') \<Longrightarrow> ?P s'" by (rule find)
      show "\<And>s r s'. ?P s \<Longrightarrow> vips_buffer_new E mem i a s = Inr (r, s') \<Longrightarrow> ?P s'"
        by (rule new)
    qed
    then show ?thesis by simp
  next
    case (SwapReference old i a mem)
    with assms(6) obtain r where r: "vips_buffer_unref_ref E mem old i a s = Inr (r, s')"
      by (auto split: sum.splits)
    have "?P s'"
    proof (rule unref_ref_preserves[where P = ?P, OF _ _ _ _ p r])
      show "\<And>r s'. buffer_find i a s = Inr (r, s') \<Longrightarrow> ?P s'" by (rule find)
      show "\<And>s r s'. ?P s \<Longrightarrow> vips_buffer_new E mem i a s = Inr (r, s') \<Longrightarrow> ?P s'"
        by (rule new)
      show "\<And>s b s'. ?P s \<Longrightarrow> vips_buffer_unref b s = Inr s' \<Longrightarrow> ?P s'" by (rule unref)
      show "\<And>s b rc s'. ?P s \<Longrightarrow> buffer_move E mem b a s = Inr (rc, s') \<Longrightarrow> ?P s'"
        by (rule move)
    qed
    then show ?thesis by simp
  next
    case (Publish b)
    with assms(5) obtain x where x: "heap s b = Some x" "0 < sint (ref_count x)"
      by (auto simp: holds_ref_def split: option.splits)
    then have "ref_count x \<noteq> 0" by auto
    with assms(2,6) Publish x show ?thesis by (auto dest: ok_done)
  next
    case (Unpublish b)
    with assms(2,6) show ?thesis by (auto dest: ok_undone)
  next
    case (Release b)
    with assms(1,2,6) show ?thesis by (auto dest: ok_unref)
  qed
qed

lemma exec_all_of_run:
  assumes "run E cs s = Some s'"
  shows "exec_all E cs s = Inr s'"
  using assms
  by (induction cs arbitrary: s) (auto split: if_splits sum.splits)

lemma strong_run:
  assumes "cache_wf s" "counts_ok s" "counts_le n s" "run E cs s = Some s'"
    "n + length cs \<le> 4294967295"
  shows "counts_ok s'"
  using assms
proof (induction cs arbitrary: s n)
  case Nil
  then show ?case by simp
next
  case (Cons c cs)
  from Cons.prems(4) obtain s1 where p: "permitted s c" and e: "exec E c s = Inr s1"
    and r: "run E cs s1 = Some s'"
    by (auto split: if_splits sum.splits)
  from Cons.prems(5) have n: "n < 4294967295" "Suc n + length cs \<le> 4294967295" by simp_all
  show ?case
    by (rule Cons.IH[OF wf_exec[OF Cons.prems(1) p e]
          strong_exec[OF Cons.prems(1-3) n(1) p e] le_exec[OF Cons.prems(3) e] r n(2)])
qed

lemma reachable_counts:
  assumes "run E cs buffer_cache_new = Some s" "length cs < 4294967296"
  shows "counts_ok s"
proof -
  from assms(2) have l: "0 + length cs \<le> 4294967295" by simp
  from strong_run[OF wf_new ok_new le_new assms(1) l] show ?thesis .
qed


lemma exec_counted:
  "exec E0 (Acquire 0 (rect 0 0 10 10) True) (counted c) = Inr (counted (c + 1))"
  by (simp add: op_defs counted_def fun_eq_iff)


lemma run_counted_1:
  "run E0 [Acquire 0 (rect 0 0 10 10) True, Publish 0] buffer_cache_new = Some (counted 1)"
  by (simp add: op_defs counted_def fun_eq_iff)





section \<open>Publish and unpublish\<close>

text \<open>
  C9. \<^verbatim>\<open>vips_buffer_done\<close> and \<^verbatim>\<open>vips_buffer_undone\<close> are idempotent: a second call
  right after a call that returned leaves the state of the first call. The second
  publish finds \<^verbatim>\<open>done\<close> set and does not prepend again; the second unpublish finds
  \<^verbatim>\<open>done\<close> clear, removes nothing and writes the two zeros again.
\<close>

theorem publish_unpublish_idempotent:
  "(vips_buffer_done b s = Inr s' \<longrightarrow> vips_buffer_done b s' = Inr s') \<and>
   (vips_buffer_undone b s = Inr s' \<longrightarrow> vips_buffer_undone b s' = Inr s')"
proof (intro conjI impI)
  assume "vips_buffer_done b s = Inr s'"
  then show "vips_buffer_done b s' = Inr s'"
    by (auto simp: vips_buffer_done_def split: option.splits if_splits)
next
  assume "vips_buffer_undone b s = Inr s'"
  then show "vips_buffer_undone b s' = Inr s'"
    by (auto simp: vips_buffer_undone_def modify_def split: option.splits if_splits)
qed

theorem publish_unpublish_idempotent_witness:
  "\<exists>s1 s2 s3.
     vips_buffer_ref E0 True 0 (rect 0 0 10 10) buffer_cache_new = Inr (Some 0, s1) \<and>
     vips_buffer_done 0 s1 = Inr s2 \<and> vips_buffer_done 0 s2 = Inr s2 \<and>
     buffers_of s2 (Some 0) = [0] \<and>
     vips_buffer_undone 0 s2 = Inr s3 \<and> vips_buffer_undone 0 s3 = Inr s3 \<and>
     buffers_of s3 (Some 0) = []"
proof -
  obtain s1 where s1: "vips_buffer_ref E0 True 0 (rect 0 0 10 10) buffer_cache_new = Inr (Some 0, s1)"
    by (simp add: op_defs)
  obtain s2 where s2: "vips_buffer_done 0 s1 = Inr s2" and l2: "buffers_of s2 (Some 0) = [0]"
    using s1 by (auto simp add: op_defs)
  obtain s3 where s3: "vips_buffer_undone 0 s2 = Inr s3" and l3: "buffers_of s3 (Some 0) = []"
    using s1 s2 by (auto simp add: op_defs)
  from publish_unpublish_idempotent[of 0 s1 s2] s2
  have d: "vips_buffer_done 0 s2 = Inr s2" by simp
  from publish_unpublish_idempotent[of 0 s2 s3] s3
  have u: "vips_buffer_undone 0 s3 = Inr s3" by simp
  from s1 s2 s3 d u l2 l3 show ?thesis by blast
qed

section \<open>Swapping a reference\<close>

text \<open>
  C8. When the old buffer's area already includes the requested rectangle (as
  \<^verbatim>\<open>vips_rect_includesrect\<close> tells), \<^verbatim>\<open>vips_buffer_unref_ref\<close> returns the old
  buffer and the state it was called in: no field of any buffer is written, no count
  changes and neither allocation counter moves. The only thing the function does before
  this test is its assertion that the old buffer is a buffer of the requested image
  (see C10), which is the hypothesis \<open>im x = Some i\<close>.
\<close>

theorem swap_reference_identity:
  assumes "heap s ob = Some x" "im x = Some i" "vips_rect_includesrect E (area x) a"
  shows "vips_buffer_unref_ref E mem (Some ob) i a s = Inr (Some ob, s)"
  using assms by (simp add: vips_buffer_unref_ref_def)

theorem swap_reference_identity_witness:
  "\<exists>s x. vips_buffer_ref E0 True 0 (rect 0 0 10 10) buffer_cache_new = Inr (Some 0, s) \<and>
     heap s 0 = Some x \<and> im x = Some 0 \<and>
     vips_rect_includesrect E0 (area x) (rect 2 2 4 4) \<and>
     vips_buffer_unref_ref E0 False (Some 0) 0 (rect 2 2 4 4) s = Inr (Some 0, s)"
proof -
  obtain s x where s: "vips_buffer_ref E0 True 0 (rect 0 0 10 10) buffer_cache_new = Inr (Some 0, s)"
    and x: "heap s 0 = Some x" "im x = Some 0" "vips_rect_includesrect E0 (area x) (rect 2 2 4 4)"
    by (simp add: op_defs)
  from swap_reference_identity[OF x, of False] s x show ?thesis by blast
qed

text \<open>
  C10. The assertion \<^verbatim>\<open>old_buffer->im == im\<close> is the first thing
  \<^verbatim>\<open>vips_buffer_unref_ref\<close> checks. With an old buffer of another image the call aborts
  on it, whatever the rectangle, so the early return never hands back a buffer of the
  wrong image; every call that returns had an old buffer of the requested image.
\<close>

theorem swap_reference_image_precondition:
  assumes "heap s ob = Some x"
  shows "(im x \<noteq> Some i \<longrightarrow> vips_buffer_unref_ref E mem (Some ob) i a s = Inl AssertionFailed) \<and>
         (\<forall>res. vips_buffer_unref_ref E mem (Some ob) i a s = Inr res \<longrightarrow> im x = Some i)"
  using assms by (auto simp: vips_buffer_unref_ref_def)

theorem swap_reference_image_precondition_witness:
  "\<exists>s x. vips_buffer_ref E0 True 0 (rect 0 0 10 10) buffer_cache_new = Inr (Some 0, s) \<and>
     heap s 0 = Some x \<and> im x \<noteq> Some 1 \<and> vips_rect_includesrect E0 (area x) (rect 2 2 4 4) \<and>
     vips_buffer_unref_ref E0 True (Some 0) 1 (rect 2 2 4 4) s = Inl AssertionFailed"
proof -
  obtain s x where s: "vips_buffer_ref E0 True 0 (rect 0 0 10 10) buffer_cache_new = Inr (Some 0, s)"
    and x: "heap s 0 = Some x" "im x \<noteq> Some 1" "vips_rect_includesrect E0 (area x) (rect 2 2 4 4)"
    by (simp add: op_defs)
  from swap_reference_image_precondition[OF x(1), of 1 E0 True "rect 2 2 4 4"] s x
  show ?thesis by blast
qed

section \<open>Acquiring a buffer\<close>




section \<open>Lookup\<close>

lemma find_loop_first:
  assumes "\<forall>p \<in> set pre. \<exists>y. h p = Some y \<and> \<not> encloses (area y) r"
    "h b = Some x" "encloses (area x) r"
  shows "find_loop h r (pre @ b # post) = Inr (Some b)"
  using assms by (induction pre) auto

lemma find_loop_none:
  assumes "\<forall>p \<in> set l. \<exists>y. h p = Some y \<and> \<not> encloses (area y) r"
  shows "find_loop h r l = Inr None"
  using assms by (induction l) auto



lemma run_two_published:
  "run E0 [Acquire 0 (rect 0 0 10 10) True, Acquire 0 (rect 0 0 20 20) True, Publish 0, Publish 1]
     buffer_cache_new = Some two_published"
  by (simp add: op_defs two_published_def fun_eq_iff)

lemma run_far_published:
  "run E0 [Acquire 0 (rect 2147483640 0 10 10) True, Publish 0] buffer_cache_new
     = Some far_published"
  by (simp add: op_defs far_published_def far_buffer_def fun_eq_iff)

lemma far_facts:
  "buffers_of far_published (Some 0) = [0]" "heap far_published 0 = Some far_buffer"
  "done_b far_buffer" "im far_buffer = Some 0"
  "exact_encloses (area far_buffer) (rect 2147483640 0 5 5)"
  "edges_fit (rect 2147483640 0 5 5)" "\<not> edges_fit (area far_buffer)"
  by (simp_all add: far_published_def far_buffer_def buffers_of_def exact_encloses_def
      edges_fit_def rect_def)

text \<open>
  C5, as the claim states it, fails: the only published buffer, of area
  \<open>(2147483640, 0, 10, 10)\<close>, encloses \<open>(2147483640, 0, 5, 5)\<close>, but its right edge
  \<open>2147483640 + 10\<close> wraps to a negative \<^verbatim>\<open>int\<close>, the test of \<^verbatim>\<open>buffer_find\<close> fails and
  the lookup returns \<^verbatim>\<open>NULL\<close>.
\<close>

theorem buffer_find_first_fit_counterexample:
  "run E0 [Acquire 0 (rect 2147483640 0 10 10) True, Publish 0] buffer_cache_new
     = Some far_published \<and>
   buffers_of far_published (Some 0) = [0] \<and> heap far_published 0 = Some far_buffer \<and>
   exact_encloses (area far_buffer) (rect 2147483640 0 5 5) \<and>
   buffer_find 0 (rect 2147483640 0 5 5) far_published = Inr (None, far_published)"
proof -
  have "buffer_find 0 (rect 2147483640 0 5 5) far_published = Inr (None, far_published)"
    by (simp add: buffer_find_def buffers_of_def far_published_def far_buffer_def encloses_def
        rect_def)
  with run_far_published far_facts show ?thesis by blast
qed

text \<open>
  C5, amended. \<^verbatim>\<open>buffer_find\<close> is first fit for the test it computes, with 32-bit sums:
  when the list of the image is \<open>pre @ b # post\<close>, no buffer of \<open>pre\<close> passes the test for
  the rectangle and \<open>b\<close> does, the result is \<open>b\<close> with its count incremented, whatever
  \<open>post\<close> holds; when no buffer of the list passes, the result is \<^verbatim>\<open>NULL\<close> and nothing
  changes. Where \<open>left + width\<close> and \<open>top + height\<close> of the rectangle and of the areas up
  to \<open>b\<close> are representable as a C \<^verbatim>\<open>int\<close>, the test is enclosure, and \<open>b\<close> is the first
  buffer of the list whose area encloses the rectangle. \<^verbatim>\<open>vips_buffer_done\<close> puts a
  buffer at the head of the list of its image, so the list is ordered from the most
  recently published buffer to the least.
\<close>

theorem buffer_find_first_fit:
  "(buffers_of s (Some i) = pre @ b # post \<and>
      (\<forall>p \<in> set pre. \<exists>y. heap s p = Some y \<and> \<not> encloses (area y) r) \<and>
      heap s b = Some x \<and> encloses (area x) r \<longrightarrow>
      buffer_find i r s = Inr (Some b, modify b add_ref s)) \<and>
   (buffers_of s (Some i) = pre @ b # post \<and> edges_fit r \<and>
      (\<forall>p \<in> set pre. \<exists>y. heap s p = Some y \<and> edges_fit (area y) \<and>
          \<not> exact_encloses (area y) r) \<and>
      heap s b = Some x \<and> edges_fit (area x) \<and> exact_encloses (area x) r \<longrightarrow>
      buffer_find i r s = Inr (Some b, modify b add_ref s)) \<and>
   ((\<forall>p \<in> set (buffers_of s (Some i)). \<exists>y. heap s p = Some y \<and> \<not> encloses (area y) r) \<longrightarrow>
      buffer_find i r s = Inr (None, s)) \<and>
   (heap s b = Some x \<and> \<not> done_b x \<and> vips_buffer_done b s = Inr s' \<longrightarrow>
      buffers_of s' (im x) = b # buffers_of s (im x))"
proof (intro conjI impI)
  assume a: "buffers_of s (Some i) = pre @ b # post \<and>
      (\<forall>p \<in> set pre. \<exists>y. heap s p = Some y \<and> \<not> encloses (area y) r) \<and>
      heap s b = Some x \<and> encloses (area x) r"
  then have "find_loop (heap s) r (pre @ b # post) = Inr (Some b)"
    by (intro find_loop_first) auto
  with a show "buffer_find i r s = Inr (Some b, modify b add_ref s)"
    by (simp add: buffer_find_def)
next
  assume a: "buffers_of s (Some i) = pre @ b # post \<and> edges_fit r \<and>
      (\<forall>p \<in> set pre. \<exists>y. heap s p = Some y \<and> edges_fit (area y) \<and>
          \<not> exact_encloses (area y) r) \<and>
      heap s b = Some x \<and> edges_fit (area x) \<and> exact_encloses (area x) r"
  then have "\<forall>p \<in> set pre. \<exists>y. heap s p = Some y \<and> \<not> encloses (area y) r"
    using encloses_exact by blast
  moreover from a have "encloses (area x) r" using encloses_exact by blast
  ultimately have "find_loop (heap s) r (pre @ b # post) = Inr (Some b)"
    using a by (intro find_loop_first) auto
  with a show "buffer_find i r s = Inr (Some b, modify b add_ref s)"
    by (simp add: buffer_find_def)
next
  assume "\<forall>p \<in> set (buffers_of s (Some i)). \<exists>y. heap s p = Some y \<and> \<not> encloses (area y) r"
  then have "find_loop (heap s) r (buffers_of s (Some i)) = Inr None"
    by (rule find_loop_none)
  then show "buffer_find i r s = Inr (None, s)"
    by (simp add: buffer_find_def)
next
  assume "heap s b = Some x \<and> \<not> done_b x \<and> vips_buffer_done b s = Inr s'"
  then show "buffers_of s' (im x) = b # buffers_of s (im x)"
    by (auto simp: vips_buffer_done_def split: if_splits)
qed

theorem buffer_find_first_fit_witness:
  "run E0 [Acquire 0 (rect 0 0 10 10) True, Acquire 0 (rect 0 0 20 20) True, Publish 0, Publish 1]
     buffer_cache_new = Some two_published \<and>
   buffers_of two_published (Some 0) = [1, 0] \<and>
   heap two_published 0 = Some buffer_10 \<and> encloses (area buffer_10) (rect 2 2 4 4) \<and>
   heap two_published 1 = Some buffer_20 \<and> edges_fit (area buffer_20) \<and>
   edges_fit (rect 2 2 4 4) \<and> exact_encloses (area buffer_20) (rect 2 2 4 4) \<and>
   buffer_find 0 (rect 2 2 4 4) two_published =
     Inr (Some 1, modify 1 add_ref two_published) \<and>
   buffer_find 0 (rect 2 2 40 40) two_published = Inr (None, two_published)"
proof -
  have l: "buffers_of two_published (Some 0) = [1, 0]"
    by (simp add: two_published_def buffers_of_def)
  have a: "buffers_of two_published (Some 0) = [] @ 1 # [0] \<and> edges_fit (rect 2 2 4 4) \<and>
      (\<forall>p \<in> set []. \<exists>y. heap two_published p = Some y \<and> edges_fit (area y) \<and>
          \<not> exact_encloses (area y) (rect 2 2 4 4)) \<and>
      heap two_published 1 = Some buffer_20 \<and> edges_fit (area buffer_20) \<and>
      exact_encloses (area buffer_20) (rect 2 2 4 4)"
    by (simp add: two_published_def buffers_of_def buffer_20_def exact_encloses_def
        edges_fit_def rect_def)
  have n: "\<forall>p \<in> set (buffers_of two_published (Some 0)).
      \<exists>y. heap two_published p = Some y \<and> \<not> encloses (area y) (rect 2 2 40 40)"
    by (simp add: two_published_def buffers_of_def encloses_def rect_def)
  note t = buffer_find_first_fit[of two_published 0 "[]" 1 "[0]" "rect 2 2 4 4" buffer_20]
  note u = buffer_find_first_fit[of two_published 0 _ _ _ "rect 2 2 40 40"]
  from t a have f1: "buffer_find 0 (rect 2 2 4 4) two_published =
     Inr (Some 1, modify 1 add_ref two_published)"
    by blast
  from u n have f2: "buffer_find 0 (rect 2 2 40 40) two_published = Inr (None, two_published)"
    by blast
  have b: "heap two_published 0 = Some buffer_10 \<and> encloses (area buffer_10) (rect 2 2 4 4)"
    by (simp add: two_published_def buffer_10_def encloses_def rect_def)
  from run_two_published l a b f1 f2 show ?thesis by blast
qed





section \<open>The reserve\<close>

lemma dead_not_kept:
  assumes "cache_wf s" "heap s b = None"
  shows "b \<notin> set (reserve s) \<and> \<not> listed s b"
  using assms unfolding cache_wf_def listed_def by auto

lemma undone_not_listed:
  assumes "cache_wf s" "heap s b = Some x" "\<not> done_b x"
  shows "\<not> listed s b"
  using assms unfolding cache_wf_def listed_def by auto

lemma reserved_detached:
  assumes "cache_wf s" "b \<in> set (reserve s)"
  shows "\<exists>x. heap s b = Some x \<and> ref_count x = 0 \<and> im x = None \<and> \<not> done_b x \<and>
           \<not> listed s b \<and> width (area x) = 0 \<and> height (area x) = 0"
proof -
  from assms obtain x where x: "heap s b = Some x" "ref_count x = 0" "\<not> done_b x"
    "im x = None" "width (area x) = 0" "height (area x) = 0"
    unfolding cache_wf_def by blast
  with undone_not_listed[OF assms(1) x(1,3)] show ?thesis by blast
qed

lemma last_unref_result:
  assumes "cache_wf s" "heap s b = Some x" "ref_count x = 1" "vips_buffer_unref b s = Inr s'"
  shows "if length (reserve s) < 40
         then reserve s' = b # reserve s \<and>
              (\<exists>x'. heap s' b = Some x' \<and> ref_count x' = 0 \<and> buf x' = buf x \<and>
                    left (area x') = left (area x) \<and> top_r (area x') = top_r (area x))
         else reserve s' = reserve s \<and> heap s' b = None"
proof -
  from assms(4) obtain s2 where s2: "vips_buffer_undone b s = Inr s2"
    and s': "s' = (if sint (n_reserve s2) < sint buffer_cache_max_reserve then
           modify b (\<lambda>x. zero_area (x\<lparr>ref_count := 0, done_b := False, cache := False, im := None\<rparr>))
                  (s2\<lparr>reserve := b # reserve s2, n_reserve := n_reserve s2 + 1\<rparr>)
         else vips_buffer_free b s2)"
    by (auto simp: unref_last[OF assms(2,3)] split: sum.splits if_splits)
  from undone_heap[OF s2] assms(2) obtain x2 where
    x2: "heap s2 b = Some x2" "buf x2 = buf x" "left (area x2) = left (area x)"
      "top_r (area x2) = top_r (area x)"
    by auto
  note fr = undone_frame[OF s2]
  show ?thesis
  proof (cases "sint (n_reserve s) < sint buffer_cache_max_reserve")
    case True
    with reserve_room[OF assms(1)] have "length (reserve s) < 40" by simp
    with True s' fr x2 show ?thesis by simp
  next
    case False
    with reserve_full[OF assms(1)] have "length (reserve s) = 40" by simp
    with False s' fr show ?thesis by (simp add: vips_buffer_free_def)
  qed
qed

lemma exec_all_stale:
  "exec_all E0 [Acquire 0 (rect 0 0 10 10) True, Release 0, Publish 0] buffer_cache_new
     = Inr stale_published"
  by (simp add: op_defs stale_published_def stale_buffer_def fun_eq_iff)

text \<open>
  C3, as the claim states it, fails: the claim is about any sequence of operations, and
  \<^verbatim>\<open>vips_buffer_done\<close> does not check that its buffer is still referenced. A buffer that
  is acquired, released and then published through the stale pointer is in the reserve
  and published at once.
\<close>

theorem reserve_bounded_counterexample:
  "exec_all E0 [Acquire 0 (rect 0 0 10 10) True, Release 0, Publish 0] buffer_cache_new
     = Inr stale_published \<and>
   0 \<in> set (reserve stale_published) \<and> heap stale_published 0 = Some stale_buffer \<and>
   done_b stale_buffer \<and> 0 \<in> set (buffers_of stale_published None)"
proof -
  note exec_all_stale
  moreover have "0 \<in> set (reserve stale_published) \<and>
      heap stale_published 0 = Some stale_buffer \<and>
      done_b stale_buffer \<and> 0 \<in> set (buffers_of stale_published None)"
    by (simp add: stale_published_def stale_buffer_def buffers_of_def)
  ultimately show ?thesis by blast
qed

text \<open>
  C3, amended. In every state reached by permitted calls (every buffer handed to
  publish, unpublish, release or swapReference is live and has a positive count) the
  reserve holds at most 40 buffers, \<open>n_reserve\<close> is its length, and every buffer of the
  reserve is live, has no image, is not \<^verbatim>\<open>done\<close>, is on no list of the hash and has
  count 0. A last \<^verbatim>\<open>vips_buffer_unref\<close> (count 1) puts the buffer at the head of the
  reserve while the reserve holds fewer than 40 buffers; when it holds 40 the buffer is
  freed and the reserve stays as it is.
\<close>

theorem reserve_bounded:
  assumes "run E cs buffer_cache_new = Some s"
  shows "length (reserve s) \<le> 40 \<and> sint (n_reserve s) = int (length (reserve s)) \<and>
    (\<forall>b \<in> set (reserve s). \<exists>x. heap s b = Some x \<and> im x = None \<and> \<not> done_b x \<and>
        \<not> listed s b \<and> ref_count x = 0) \<and>
    (\<forall>b x s'. heap s b = Some x \<and> ref_count x = 1 \<and> vips_buffer_unref b s = Inr s' \<longrightarrow>
        (if length (reserve s) < 40 then reserve s' = b # reserve s
         else reserve s' = reserve s \<and> heap s' b = None))"
proof -
  have w: "cache_wf s" by (rule reachable_wf[OF assms])
  then have n0: "n_reserve s = of_nat (length (reserve s))" "length (reserve s) \<le> 40"
    unfolding cache_wf_def by auto
  with sint_of_nat_small[OF n0(2)]
  have n: "sint (n_reserve s) = int (length (reserve s))" by simp
  have r: "\<forall>b \<in> set (reserve s). \<exists>x. heap s b = Some x \<and> im x = None \<and> \<not> done_b x \<and>
        \<not> listed s b \<and> ref_count x = 0"
    using reserved_detached[OF w] by blast
  have u: "\<forall>b x s'. heap s b = Some x \<and> ref_count x = 1 \<and> vips_buffer_unref b s = Inr s' \<longrightarrow>
        (if length (reserve s) < 40 then reserve s' = b # reserve s
         else reserve s' = reserve s \<and> heap s' b = None)"
  proof (intro allI impI)
    fix b x s'
    assume a: "heap s b = Some x \<and> ref_count x = 1 \<and> vips_buffer_unref b s = Inr s'"
    with last_unref_result[OF w, of b x s']
    show "if length (reserve s) < 40 then reserve s' = b # reserve s
         else reserve s' = reserve s \<and> heap s' b = None"
      by (auto split: if_splits)
  qed
  from n0(2) n r u show ?thesis by blast
qed

lemma run_fill_calls:
  "case run E0 fill_calls buffer_cache_new of
     None \<Rightarrow> False
   | Some s \<Rightarrow>
       length (reserve s) = 40 \<and> 0 \<in> set (reserve s) \<and>
       (case heap s 40 of None \<Rightarrow> False | Some x \<Rightarrow> ref_count x = 1) \<and>
       (case vips_buffer_unref 40 s of Inl e \<Rightarrow> False | Inr s' \<Rightarrow> True)"
  by code_simp

theorem reserve_bounded_witness:
  "\<exists>s x s'. run E0 fill_calls buffer_cache_new = Some s \<and> length (reserve s) = 40 \<and>
     heap s 40 = Some x \<and> ref_count x = 1 \<and> vips_buffer_unref 40 s = Inr s' \<and>
     reserve s' = reserve s \<and> heap s' 40 = None \<and>
     (\<exists>y. heap s 0 = Some y \<and> im y = None \<and> \<not> done_b y \<and> \<not> listed s 0 \<and> ref_count y = 0)"
proof -
  from run_fill_calls obtain s x s' where s: "run E0 fill_calls buffer_cache_new = Some s"
    and l: "length (reserve s) = 40" and m: "0 \<in> set (reserve s)"
    and x: "heap s 40 = Some x" "ref_count x = 1"
    and u: "vips_buffer_unref 40 s = Inr s'"
    by (auto split: option.splits sum.splits)
  note t = reserve_bounded[OF s]
  from t m have p: "\<exists>y. heap s 0 = Some y \<and> im y = None \<and> \<not> done_b y \<and> \<not> listed s 0 \<and>
      ref_count y = 0"
    by blast
  from t x u have "if length (reserve s) < 40 then reserve s' = 40 # reserve s
         else reserve s' = reserve s \<and> heap s' 40 = None"
    by blast
  with l have f: "reserve s' = reserve s" "heap s' 40 = None" by simp_all
  from s l x u f p show ?thesis by blast
qed

section \<open>Buffers without a reference\<close>

lemma run_parked:
  "run E0 [Acquire 0 (rect 5 5 10 10) True, Release 0] buffer_cache_new = Some parked"
  by (simp add: op_defs parked_def parked_buffer_def fun_eq_iff)

lemma run_append:
  "run E (xs @ ys) s = (case run E xs s of None \<Rightarrow> None | Some s' \<Rightarrow> run E ys s')"
  by (induction xs arbitrary: s) (auto split: sum.splits)

lemma run_counted:
  "run E0 (replicate n (Acquire 0 (rect 0 0 10 10) True)) (counted c)
     = Some (counted (c + of_nat n))"
proof (induction n arbitrary: c)
  case 0
  show ?case by simp
next
  case (Suc n)
  have "run E0 (replicate (Suc n) (Acquire 0 (rect 0 0 10 10) True)) (counted c)
      = run E0 (replicate n (Acquire 0 (rect 0 0 10 10) True)) (counted (c + 1))"
    by (simp only: replicate_Suc run.simps permitted.simps exec_counted sum.case if_True)
  also have "\<dots> = Some (counted (c + 1 + of_nat n))" by (rule Suc.IH)
  also have "c + 1 + of_nat n = c + of_nat (Suc n)" by simp
  finally show ?case .
qed

text \<open>
  C6, as the claim states it, fails in three ways.
  \<^item> Release clears \<open>width\<close> and \<open>height\<close> only: after a buffer is acquired for
    \<open>(5, 5, 10, 10)\<close> and released, its count is 0 and its area is \<open>(5, 5, 0, 0)\<close>, not
    the zero rectangle.
  \<^item> \<^verbatim>\<open>vips_buffer_done\<close> does not look at the count: a buffer that is acquired, released
    and then published through the stale pointer has count 0 and is published.
  \<^item> The count is a C \<^verbatim>\<open>int\<close>: once a buffer is published, \<open>2 ^ 32 - 1\<close> more acquire
    operations of the same rectangle take its count from 1 round to 0, and it is still
    published.
\<close>

theorem unreferenced_unpublished_counterexample:
  "run E0 [Acquire 0 (rect 5 5 10 10) True, Release 0] buffer_cache_new = Some parked \<and>
   heap parked 0 = Some parked_buffer \<and> ref_count parked_buffer = 0 \<and>
   area parked_buffer = rect 5 5 0 0 \<and> area parked_buffer \<noteq> rect 0 0 0 0 \<and>
   exec_all E0 [Acquire 0 (rect 0 0 10 10) True, Release 0, Publish 0] buffer_cache_new
     = Inr stale_published \<and>
   heap stale_published 0 = Some stale_buffer \<and> ref_count stale_buffer = 0 \<and>
   done_b stale_buffer \<and> listed stale_published 0 \<and>
   run E0 ([Acquire 0 (rect 0 0 10 10) True, Publish 0] @
           replicate 4294967295 (Acquire 0 (rect 0 0 10 10) True)) buffer_cache_new
     = Some (counted 0) \<and>
   map_option ref_count (heap (counted 0) 0) = Some 0 \<and>
   map_option done_b (heap (counted 0) 0) = Some True \<and> listed (counted 0) 0"
proof -
  have a: "heap parked 0 = Some parked_buffer \<and> ref_count parked_buffer = 0 \<and>
   area parked_buffer = rect 5 5 0 0 \<and> area parked_buffer \<noteq> rect 0 0 0 0"
    by (simp add: parked_def parked_buffer_def rect_def)
  have "0 \<in> set (buffers_of stale_published None)"
    by (simp add: stale_published_def buffers_of_def)
  then have l1: "listed stale_published 0" unfolding listed_def by blast
  have b: "heap stale_published 0 = Some stale_buffer \<and> ref_count stale_buffer = 0 \<and>
   done_b stale_buffer"
    by (simp add: stale_published_def stale_buffer_def)
  have w: "(1 + of_nat 4294967295 :: c_int) = 0" by simp
  have "run E0 ([Acquire 0 (rect 0 0 10 10) True, Publish 0] @
           replicate 4294967295 (Acquire 0 (rect 0 0 10 10) True)) buffer_cache_new
     = Some (counted (1 + of_nat 4294967295))"
    by (simp only: run_append run_counted_1 run_counted option.case)
  then have c: "run E0 ([Acquire 0 (rect 0 0 10 10) True, Publish 0] @
           replicate 4294967295 (Acquire 0 (rect 0 0 10 10) True)) buffer_cache_new
     = Some (counted 0)"
    by (simp only: w)
  have "0 \<in> set (buffers_of (counted 0) (Some 0))"
    by (simp add: counted_def buffers_of_def)
  then have l2: "listed (counted 0) 0" unfolding listed_def by blast
  have e: "map_option ref_count (heap (counted 0) 0) = Some 0 \<and>
   map_option done_b (heap (counted 0) 0) = Some True"
    by (simp add: counted_def)
  from run_parked a exec_all_stale b l1 c e l2 show ?thesis by blast
qed

text \<open>
  C6, amended. In every state reached by fewer than \<open>2 ^ 32\<close> permitted calls (every
  buffer handed to publish, unpublish, release or swapReference is live and has a
  positive count), a live buffer of count 0 is not \<^verbatim>\<open>done\<close>, is on no list of the hash,
  and has an empty area: \<open>width\<close> and \<open>height\<close> are 0, the two fields
  \<^verbatim>\<open>vips_buffer_undone\<close> and \<^verbatim>\<open>vips_buffer_unref\<close> clear, while \<open>left\<close> and \<open>top\<close> keep
  their values. A \<^verbatim>\<open>vips_buffer_unref\<close> that takes the count from 1 to 0 leaves the
  buffer either freed or in that condition, and on no list.
\<close>

theorem unreferenced_unpublished:
  assumes "run E cs buffer_cache_new = Some s" "length cs < 4294967296" "heap s b = Some x"
  shows "(ref_count x = 0 \<longrightarrow>
            \<not> done_b x \<and> \<not> listed s b \<and> width (area x) = 0 \<and> height (area x) = 0) \<and>
         (\<forall>s'. ref_count x = 1 \<and> vips_buffer_unref b s = Inr s' \<longrightarrow>
            \<not> listed s' b \<and>
            (heap s' b = None \<or>
             (\<exists>x'. heap s' b = Some x' \<and> ref_count x' = 0 \<and> \<not> done_b x' \<and>
                   width (area x') = 0 \<and> height (area x') = 0 \<and>
                   left (area x') = left (area x) \<and> top_r (area x') = top_r (area x))))"
proof -
  have w: "cache_wf s" by (rule reachable_wf[OF assms(1)])
  have c: "counts_ok s" by (rule reachable_counts[OF assms(1,2)])
  have p1: "ref_count x = 0 \<longrightarrow>
            \<not> done_b x \<and> \<not> listed s b \<and> width (area x) = 0 \<and> height (area x) = 0"
  proof
    assume "ref_count x = 0"
    with c assms(3) have "b \<in> set (reserve s)" unfolding counts_ok_def by blast
    from reserved_detached[OF w this] assms(3)
    show "\<not> done_b x \<and> \<not> listed s b \<and> width (area x) = 0 \<and> height (area x) = 0"
      by auto
  qed
  have p2: "\<forall>s'. ref_count x = 1 \<and> vips_buffer_unref b s = Inr s' \<longrightarrow>
            \<not> listed s' b \<and>
            (heap s' b = None \<or>
             (\<exists>x'. heap s' b = Some x' \<and> ref_count x' = 0 \<and> \<not> done_b x' \<and>
                   width (area x') = 0 \<and> height (area x') = 0 \<and>
                   left (area x') = left (area x) \<and> top_r (area x') = top_r (area x)))"
  proof (intro allI impI)
    fix s'
    assume a: "ref_count x = 1 \<and> vips_buffer_unref b s = Inr s'"
    then have w': "cache_wf s'" using wf_unref[OF w] by blast
    from last_unref_result[OF w assms(3), of s'] a
    consider "heap s' b = None"
      | x' where "b \<in> set (reserve s')" "heap s' b = Some x'"
          "left (area x') = left (area x)" "top_r (area x') = top_r (area x)"
      by (auto split: if_splits)
    then show "\<not> listed s' b \<and>
            (heap s' b = None \<or>
             (\<exists>x'. heap s' b = Some x' \<and> ref_count x' = 0 \<and> \<not> done_b x' \<and>
                   width (area x') = 0 \<and> height (area x') = 0 \<and>
                   left (area x') = left (area x) \<and> top_r (area x') = top_r (area x)))"
    proof cases
      case 1
      with dead_not_kept[OF w'] show ?thesis by blast
    next
      case 2
      with reserved_detached[OF w' 2(1)] show ?thesis by auto
    qed
  qed
  from p1 p2 show ?thesis by blast
qed

theorem unreferenced_unpublished_witness:
  "\<exists>s x s' x'. run E0 [Acquire 0 (rect 5 5 10 10) True, Publish 0] buffer_cache_new = Some s \<and>
     heap s 0 = Some x \<and> ref_count x = 1 \<and> done_b x \<and> buffers_of s (Some 0) = [0] \<and>
     vips_buffer_unref 0 s = Inr s' \<and>
     run E0 [Acquire 0 (rect 5 5 10 10) True, Publish 0, Release 0] buffer_cache_new = Some s' \<and>
     heap s' 0 = Some x' \<and> ref_count x' = 0 \<and> \<not> done_b x' \<and> \<not> listed s' 0 \<and>
     width (area x') = 0 \<and> height (area x') = 0 \<and>
     left (area x') = 5 \<and> top_r (area x') = 5"
proof -
  obtain s x s' x' where
    s: "run E0 [Acquire 0 (rect 5 5 10 10) True, Publish 0] buffer_cache_new = Some s"
    and x: "heap s 0 = Some x" "ref_count x = 1" "done_b x" "buffers_of s (Some 0) = [0]"
    and u: "vips_buffer_unref 0 s = Inr s'"
    and s': "run E0 [Acquire 0 (rect 5 5 10 10) True, Publish 0, Release 0] buffer_cache_new = Some s'"
    and x': "heap s' 0 = Some x'" "ref_count x' = 0" "left (area x') = 5" "top_r (area x') = 5"
    by (simp add: op_defs)
  have l: "length [Acquire 0 (rect 5 5 10 10) True, Publish 0] < 4294967296"
    "length [Acquire 0 (rect 5 5 10 10) True, Publish 0, Release 0] < 4294967296"
    by simp_all
  from unreferenced_unpublished[OF s l(1) x(1)] x(2) u x'(1)
  have "\<not> listed s' 0" by auto
  moreover from unreferenced_unpublished[OF s' l(2) x'(1)] x'(2)
  have "\<not> done_b x'" "width (area x') = 0" "height (area x') = 0" by auto
  ultimately show ?thesis using s x u s' x' by blast
qed

section \<open>Allocation failure\<close>

lemma run_one_acquired:
  "run E0 [Acquire 0 (rect 0 0 10 10) True] buffer_cache_new = Some one_acquired"
  by (simp add: op_defs one_acquired_def fun_eq_iff)

lemma swap_move_failed:
  "vips_buffer_unref_ref E0 False (Some 0) 0 (rect 20 20 20 20) one_acquired
     = Inr (None, move_failed)"
  by (simp add: op_defs one_acquired_def move_failed_def fun_eq_iff)

lemma run_move_failed:
  "run E0 [Acquire 0 (rect 0 0 10 10) True, SwapReference (Some 0) 0 (rect 20 20 20 20) False]
     buffer_cache_new = Some move_failed"
  by (simp add: op_defs move_failed_def fun_eq_iff)

text \<open>
  C1, as the claim states it, fails for \<^verbatim>\<open>vips_buffer_unref_ref\<close>: when the allocator
  fails while the old buffer, held once, is moved in place, the function drops the
  reference with \<^verbatim>\<open>vips_buffer_unref\<close>, and the buffer is left in the reserve, not
  freed.
\<close>

theorem allocation_failure_release_counterexample:
  "run E0 [Acquire 0 (rect 0 0 10 10) True] buffer_cache_new = Some one_acquired \<and>
   vips_buffer_unref_ref E0 False (Some 0) 0 (rect 20 20 20 20) one_acquired
     = Inr (None, move_failed) \<and>
   reserve move_failed = [0] \<and> 0 \<in> set (reserve move_failed) \<and> heap move_failed 0 \<noteq> None"
proof -
  note swap_move_failed
  moreover have "reserve move_failed = [0] \<and> 0 \<in> set (reserve move_failed) \<and>
      heap move_failed 0 \<noteq> None"
    by (simp add: move_failed_def)
  ultimately show ?thesis using run_one_acquired by blast
qed

lemma find_None_state:
  assumes "buffer_find i a s = Inr (None, s')"
  shows "s' = s"
  using assms by (auto simp: buffer_find_def split: sum.splits option.splits)

lemma move_fail:
  assumes "buffer_move E mem b a s = Inr (rc, s')" "rc \<noteq> 0"
  shows "\<not> mem \<and> (\<exists>x'. heap s' b = Some x' \<and> ref_count x' = 1 \<and> \<not> done_b x' \<and> buf x' = None) \<and>
         reserve s' = reserve s \<and> n_reserve s' = n_reserve s"
proof -
  from assms(1) obtain x s1 where x: "heap s b = Some x" "ref_count x = 1"
    and u: "vips_buffer_undone b s = Inr s1"
    by (auto simp: buffer_move_def split: option.splits if_splits sum.splits)
  from undone_heap[OF u] x obtain x1 where
    x1: "heap s1 b = Some x1" "ref_count x1 = 1" "\<not> done_b x1"
    by auto
  show ?thesis
    using assms x u x1 undone_frame[OF u]
    by (auto simp: buffer_move_def Let_def split: option.splits if_splits)
qed

lemma new_fail:
  assumes "cache_wf s" "vips_buffer_new E mem i a s = Inr (None, s')"
  shows "\<not> mem \<and> heap s' (new_candidate s) = None \<and> new_candidate s \<notin> set (reserve s') \<and>
         \<not> listed s' (new_candidate s)"
proof -
  from assms(2) obtain s1 rc s2 where
    mv: "buffer_move E mem (new_candidate s) a s1 = Inr (rc, s2)" and rc: "rc \<noteq> 0"
    and s': "s' = vips_buffer_free (new_candidate s) s2"
    by (auto simp: vips_buffer_new_def new_candidate_def
        split: list.splits sum.splits if_splits prod.splits)
  have h: "heap s' (new_candidate s) = None" by (simp add: s' vips_buffer_free_def)
  have w: "cache_wf s'" by (rule wf_buffer_new[OF assms])
  from move_fail[OF mv rc] h dead_not_kept[OF w h] show ?thesis by blast
qed

lemma ref_fail:
  assumes "cache_wf s" "vips_buffer_ref E mem i a s = Inr (None, s')"
  shows "\<not> mem \<and> heap s' (new_candidate s) = None \<and> new_candidate s \<notin> set (reserve s') \<and>
         \<not> listed s' (new_candidate s)"
proof -
  from assms(2) obtain r1 s1 where f: "buffer_find i a s = Inr (r1, s1)"
    by (auto simp: vips_buffer_ref_def split: sum.splits)
  with assms(2) have r1: "r1 = None"
    by (cases r1) (auto simp: vips_buffer_ref_def)
  with f have "s1 = s" by (auto dest: find_None_state)
  with assms(2) f r1 have "vips_buffer_new E mem i a s = Inr (None, s')"
    by (simp add: vips_buffer_ref_def)
  from new_fail[OF assms(1) this] show ?thesis .
qed

lemma unref_ref_fail:
  assumes "cache_wf s" "heap s ob = Some x"
    "vips_buffer_unref_ref E mem (Some ob) i a s = Inr (None, s')"
  shows "if ref_count x = 1
         then \<exists>s2. buffer_move E mem ob a s = Inr (- 1, s2) \<and> vips_buffer_unref ob s2 = Inr s'
         else \<exists>s1. vips_buffer_unref ob s = Inr s1 \<and> vips_buffer_new E mem i a s1 = Inr (None, s')"
proof -
  from assms(2,3) have im: "im x = Some i" and ni: "\<not> vips_rect_includesrect E (area x) a"
    by (auto simp: vips_buffer_unref_ref_def split: if_splits)
  note rest = assms(3)[unfolded unref_ref_Some[OF assms(2) im ni]]
  from rest obtain r1 s1 where f: "buffer_find i a s = Inr (r1, s1)"
    by (auto split: sum.splits)
  with rest have r1: "r1 = None"
    by (cases r1) (auto split: sum.splits)
  with f have s1: "s1 = s" by (auto dest: find_None_state)
  show ?thesis
  proof (cases "ref_count x = 1")
    case True
    with rest f r1 s1 obtain rc s2 where mv: "buffer_move E mem ob a s = Inr (rc, s2)"
      by (auto split: sum.splits)
    with rest f r1 s1 True have "rc \<noteq> 0" "vips_buffer_unref ob s2 = Inr s'"
      by (auto split: sum.splits if_splits)
    moreover from move_post[OF mv] \<open>rc \<noteq> 0\<close> have "rc = - 1" by auto
    ultimately show ?thesis using True mv by auto
  next
    case False
    with rest f r1 s1 show ?thesis by (auto split: sum.splits)
  qed
qed


text \<open>
  C1, amended. In a state reached by permitted calls, when the allocator fails:
  \<^item> in \<^verbatim>\<open>vips_buffer_new\<close> (also reached from \<^verbatim>\<open>vips_buffer_ref\<close> and from
    \<^verbatim>\<open>vips_buffer_unref_ref\<close> without an old buffer, or with an old buffer that is
    shared, after its reference was dropped) the buffer being set up is freed before
    \<^verbatim>\<open>NULL\<close> is returned: it is not in the reserve and on no list of the hash;
  \<^item> in \<^verbatim>\<open>vips_buffer_unref_ref\<close> with an old buffer held once, the old buffer is
    released with \<^verbatim>\<open>vips_buffer_unref\<close>: it is on no list, it is put in the reserve
    (with no block) while the reserve holds fewer than 40 buffers, and it is freed only
    when the reserve is full;
  \<^item> \<^verbatim>\<open>buffer_move\<close> itself releases nothing: it returns -1 and leaves the buffer
    live with its one reference, without a block, in no list and not in the reserve.
  A \<^verbatim>\<open>NULL\<close> result only arises when the allocator failed.
\<close>

theorem allocation_failure_release:
  assumes "run E cs buffer_cache_new = Some s"
  shows
   "(\<forall>s'. vips_buffer_new E mem i a s = Inr (None, s') \<or>
          vips_buffer_ref E mem i a s = Inr (None, s') \<or>
          vips_buffer_unref_ref E mem None i a s = Inr (None, s') \<longrightarrow>
       \<not> mem \<and> heap s' (new_candidate s) = None \<and> new_candidate s \<notin> set (reserve s') \<and>
       \<not> listed s' (new_candidate s)) \<and>
    (\<forall>ob x s'. heap s ob = Some x \<and> ref_count x = 1 \<and>
          vips_buffer_unref_ref E mem (Some ob) i a s = Inr (None, s') \<longrightarrow>
       \<not> mem \<and> \<not> listed s' ob \<and>
       (if length (reserve s) < 40
        then reserve s' = ob # reserve s \<and>
             (\<exists>x'. heap s' ob = Some x' \<and> ref_count x' = 0 \<and> buf x' = None)
        else reserve s' = reserve s \<and> heap s' ob = None)) \<and>
    (\<forall>ob x s'. heap s ob = Some x \<and> ref_count x \<noteq> 1 \<and>
          vips_buffer_unref_ref E mem (Some ob) i a s = Inr (None, s') \<longrightarrow>
       \<not> mem \<and>
       (\<exists>s1. vips_buffer_unref ob s = Inr s1 \<and> heap s' (new_candidate s1) = None \<and>
             new_candidate s1 \<notin> set (reserve s') \<and> \<not> listed s' (new_candidate s1))) \<and>
    (\<forall>b s'. buffer_move E mem b a s = Inr (- 1, s') \<longrightarrow>
       \<not> mem \<and> (\<exists>x'. heap s' b = Some x' \<and> ref_count x' = 1 \<and> buf x' = None) \<and>
       b \<notin> set (reserve s') \<and> \<not> listed s' b)"
  (is "?new \<and> ?moved \<and> ?fallback \<and> ?move")
proof -
  have w: "cache_wf s" by (rule reachable_wf[OF assms])
  have c1: ?new
  proof (intro allI impI)
    fix s'
    assume "vips_buffer_new E mem i a s = Inr (None, s') \<or>
          vips_buffer_ref E mem i a s = Inr (None, s') \<or>
          vips_buffer_unref_ref E mem None i a s = Inr (None, s')"
    then consider "vips_buffer_new E mem i a s = Inr (None, s')"
      | "vips_buffer_ref E mem i a s = Inr (None, s')"
      by (auto simp: unref_ref_None)
    then show "\<not> mem \<and> heap s' (new_candidate s) = None \<and>
        new_candidate s \<notin> set (reserve s') \<and> \<not> listed s' (new_candidate s)"
    proof cases
      case 1
      then show ?thesis by (rule new_fail[OF w])
    next
      case 2
      then show ?thesis by (rule ref_fail[OF w])
    qed
  qed
  have c2: ?moved
  proof (intro allI impI)
    fix ob x s'
    assume a: "heap s ob = Some x \<and> ref_count x = 1 \<and>
          vips_buffer_unref_ref E mem (Some ob) i a s = Inr (None, s')"
    with unref_ref_fail[OF w, of ob x E mem i a s'] obtain s2 where
      mv: "buffer_move E mem ob a s = Inr (- 1, s2)" and u: "vips_buffer_unref ob s2 = Inr s'"
      by auto
    from move_fail[OF mv] obtain x2 where nm: "\<not> mem"
      and x2: "heap s2 ob = Some x2" "ref_count x2 = 1" "buf x2 = None"
      and fr: "reserve s2 = reserve s" "n_reserve s2 = n_reserve s"
      by auto
    have w2: "cache_wf s2" by (rule wf_move[OF w mv])
    have w': "cache_wf s'" by (rule wf_unref[OF w2 u])
    from last_unref_result[OF w2 x2(1,2) u] x2(3) fr
    have r: "if length (reserve s) < 40
        then reserve s' = ob # reserve s \<and>
             (\<exists>x'. heap s' ob = Some x' \<and> ref_count x' = 0 \<and> buf x' = None)
        else reserve s' = reserve s \<and> heap s' ob = None"
      by (auto split: if_splits)
    have "\<not> listed s' ob"
    proof (cases "length (reserve s) < 40")
      case True
      with r have "ob \<in> set (reserve s')" by simp
      from reserved_detached[OF w' this] show ?thesis by blast
    next
      case False
      with r have "heap s' ob = None" by simp
      with dead_not_kept[OF w'] show ?thesis by blast
    qed
    with nm r show "\<not> mem \<and> \<not> listed s' ob \<and>
       (if length (reserve s) < 40
        then reserve s' = ob # reserve s \<and>
             (\<exists>x'. heap s' ob = Some x' \<and> ref_count x' = 0 \<and> buf x' = None)
        else reserve s' = reserve s \<and> heap s' ob = None)"
      by blast
  qed
  have c3: ?fallback
  proof (intro allI impI)
    fix ob x s'
    assume a: "heap s ob = Some x \<and> ref_count x \<noteq> 1 \<and>
          vips_buffer_unref_ref E mem (Some ob) i a s = Inr (None, s')"
    with unref_ref_fail[OF w, of ob x E mem i a s'] obtain s1 where
      u: "vips_buffer_unref ob s = Inr s1" and nw: "vips_buffer_new E mem i a s1 = Inr (None, s')"
      by auto
    from new_fail[OF wf_unref[OF w u] nw] u
    show "\<not> mem \<and>
       (\<exists>s1. vips_buffer_unref ob s = Inr s1 \<and> heap s' (new_candidate s1) = None \<and>
             new_candidate s1 \<notin> set (reserve s') \<and> \<not> listed s' (new_candidate s1))"
      by blast
  qed
  have c4: ?move
  proof (intro allI impI)
    fix b s'
    assume mv: "buffer_move E mem b a s = Inr (- 1, s')"
    from move_fail[OF mv] obtain x' where nm: "\<not> mem"
      and x': "heap s' b = Some x'" "ref_count x' = 1" "\<not> done_b x'" "buf x' = None"
      by auto
    have w': "cache_wf s'" by (rule wf_move[OF w mv])
    have "b \<notin> set (reserve s')" using w' x' unfolding cache_wf_def by auto
    with nm x' undone_not_listed[OF w' x'(1,3)]
    show "\<not> mem \<and> (\<exists>x'. heap s' b = Some x' \<and> ref_count x' = 1 \<and> buf x' = None) \<and>
       b \<notin> set (reserve s') \<and> \<not> listed s' b"
      by blast
  qed
  show ?thesis by (intro conjI c1 c2 c3 c4)
qed

theorem allocation_failure_release_witness:
  "run E0 [Acquire 0 (rect 0 0 10 10) True] buffer_cache_new = Some one_acquired \<and>
   heap one_acquired 0 = Some buffer_first \<and> ref_count buffer_first = 1 \<and>
   vips_buffer_unref_ref E0 False (Some 0) 0 (rect 20 20 20 20) one_acquired
     = Inr (None, move_failed) \<and>
   length (reserve one_acquired) < 40 \<and> reserve move_failed = 0 # reserve one_acquired \<and>
   \<not> listed move_failed 0 \<and>
   run E0 [Acquire 0 (rect 0 0 10 10) True, SwapReference (Some 0) 0 (rect 20 20 20 20) False]
     buffer_cache_new = Some move_failed \<and>
   new_candidate move_failed = 0 \<and>
   (\<exists>s'. vips_buffer_ref E0 False 1 (rect 0 0 5 5) move_failed = Inr (None, s') \<and>
      heap s' 0 = None \<and> 0 \<notin> set (reserve s') \<and> \<not> listed s' 0)"
proof -
  have h: "heap one_acquired 0 = Some buffer_first" "ref_count buffer_first = 1"
    "length (reserve one_acquired) < 40"
    by (simp_all add: one_acquired_def buffer_first_def)
  from allocation_failure_release[OF run_one_acquired, of False 0 "rect 20 20 20 20"]
    h swap_move_failed
  have a: "\<not> listed move_failed 0 \<and> reserve move_failed = 0 # reserve one_acquired"
    by (auto split: if_splits)
  have c: "new_candidate move_failed = 0"
    by (simp add: new_candidate_def move_failed_def)
  obtain s' where r: "vips_buffer_ref E0 False 1 (rect 0 0 5 5) move_failed = Inr (None, s')"
    by (simp add: op_defs move_failed_def)
  from allocation_failure_release[OF run_move_failed, of False 1 "rect 0 0 5 5"] r c
  have b: "heap s' 0 = None \<and> 0 \<notin> set (reserve s') \<and> \<not> listed s' 0"
    by auto
  from run_one_acquired h swap_move_failed a run_move_failed c r b show ?thesis by blast
qed

end
